theory Spec2Isabelle
  imports Main "HOL-Library.Word" "HOL-Library.Multiset" "HOL-Library.Sublist"
begin

section \<open>The statsd console server (pkg/statsd/console.go)\<close>

subsection \<open>Data model\<close>

text \<open>
  \<^verbatim>\<open>counter\<close> in \<^verbatim>\<open>delete\<close> is a Go \<^verbatim>\<open>uint32\<close>; \<^verbatim>\<open>atomic.AddUint32\<close> wraps around.
\<close>

type_synonym u32 = "32 word"

text \<open>
  Modelled from the spec: \<^verbatim>\<open>gostatsd.AggregatedMetrics\<close> and \<^verbatim>\<open>gostatsd.MetricMap\<close>
  (package \<^verbatim>\<open>github.com/atlassian/gostatsd\<close>), which console.go only imports. Section 3 of
  the specification: a MetricMap holds four independent collections, one per metric kind, each
  a mapping from metric identity to an aggregated value. The metric identity is the key string
  of the console commands; the aggregated value is opaque (\<open>'v\<close>).
\<close>

type_synonym 'v AggregatedMetrics = "string \<rightharpoonup> 'v"

record 'v MetricMap =
  Counters :: "'v AggregatedMetrics"
  Timers :: "'v AggregatedMetrics"
  Gauges :: "'v AggregatedMetrics"
  Sets :: "'v AggregatedMetrics"

text \<open>
  Modelled from the spec: \<^verbatim>\<open>AggregatedMetrics.Delete(k)\<close>, a method with no result. Section 4.3:
  a present key is removed, an absent key is silently ignored.
\<close>

definition Delete :: "'v AggregatedMetrics \<Rightarrow> string \<Rightarrow> 'v AggregatedMetrics" where
  "Delete metrics k = metrics(k := None)"

text \<open>
  \<^verbatim>\<open>type mapperFunc func(*gostatsd.MetricMap) gostatsd.AggregatedMetrics\<close>. The four mapper
  functions of the file are its only inhabitants. A Go map is a reference: \<^verbatim>\<open>f(m)\<close> aliases the
  collection inside \<^verbatim>\<open>m\<close>, so a mutation of \<^verbatim>\<open>f(m)\<close> is a mutation of \<^verbatim>\<open>m\<close>. The model reads
  the collection with \<open>applyMapper\<close> and writes the mutated collection back with
  \<open>storeMapper\<close>.
\<close>

datatype mapperFunc = getCounters | getSets | getGauges | getTimers

fun applyMapper :: "mapperFunc \<Rightarrow> 'v MetricMap \<Rightarrow> 'v AggregatedMetrics" where
  "applyMapper getCounters m = Counters m"
| "applyMapper getSets m = Sets m"
| "applyMapper getGauges m = Gauges m"
| "applyMapper getTimers m = Timers m"

fun storeMapper :: "mapperFunc \<Rightarrow> 'v AggregatedMetrics \<Rightarrow> 'v MetricMap \<Rightarrow> 'v MetricMap" where
  "storeMapper getCounters c m = m\<lparr>Counters := c\<rparr>"
| "storeMapper getSets c m = m\<lparr>Sets := c\<rparr>"
| "storeMapper getGauges c m = m\<lparr>Gauges := c\<rparr>"
| "storeMapper getTimers c m = m\<lparr>Timers := c\<rparr>"

subsection \<open>The delete path\<close>

text \<open>
  The body of the closure given to \<^verbatim>\<open>aggr.Process\<close> in \<^verbatim>\<open>delete\<close>:
  \<^verbatim>\<open>
      metrics := f(m)
      var i uint32
      for _, k := range keys {
          metrics.Delete(k)
          i++
      }
      atomic.AddUint32(&counter, i)
  \<close>
  \<open>delete_loop\<close> is the \<^verbatim>\<open>for\<close> loop: it threads the collection and the local \<^verbatim>\<open>i\<close>.
\<close>

fun delete_loop :: "string list \<Rightarrow> 'v AggregatedMetrics \<Rightarrow> u32 \<Rightarrow> 'v AggregatedMetrics \<times> u32" where
  "delete_loop [] metrics i = (metrics, i)"
| "delete_loop (k # keys) metrics i = delete_loop keys (Delete metrics k) (i + 1)"

definition delete_work :: "string list \<Rightarrow> mapperFunc \<Rightarrow> 'v MetricMap \<Rightarrow> 'v MetricMap \<times> u32" where
  "delete_work keys f m =
     (case delete_loop keys (applyMapper f m) 0 of
        (metrics, i) \<Rightarrow> (storeMapper f metrics m, i))"

text \<open>
  Modelled from the spec: \<^verbatim>\<open>Dispatcher.Process\<close> and \<^verbatim>\<open>Aggregator.Process\<close> (interfaces whose
  implementations are not in console.go). Section 4.1: the work function is invoked exactly
  once per worker, cancelled context or not, each invocation runs against the worker's own
  shard, and the returned handle blocks until all invocations have completed. The shards are
  the list of the workers' MetricMaps, worker \<open>i\<close> owning element \<open>i\<close>.

  In \<^verbatim>\<open>delete\<close> each worker touches only its own shard and adds its \<^verbatim>\<open>i\<close> to the shared counter
  atomically; addition on \<^verbatim>\<open>uint32\<close> is commutative and associative, so every interleaving
  gives the result of running the workers one after the other, which is what \<open>delete_all\<close>
  computes. \<^verbatim>\<open>wg.Wait()\<close> makes \<^verbatim>\<open>delete\<close> read the counter after all of them.
\<close>

fun delete_all :: "string list \<Rightarrow> mapperFunc \<Rightarrow> 'v MetricMap list \<Rightarrow> u32 \<Rightarrow> 'v MetricMap list \<times> u32" where
  "delete_all keys f [] counter = ([], counter)"
| "delete_all keys f (m # shards) counter =
     (case delete_work keys f m of
        (m', i) \<Rightarrow>
          (case delete_all keys f shards (counter + i) of
             (shards', counter') \<Rightarrow> (m' # shards', counter')))"

text \<open>
  \<^verbatim>\<open>func (s *ConsoleServer) delete(ctx, keys, f) uint32\<close>: the new shards and the value
  returned. The context is only handed to \<^verbatim>\<open>Dispatcher.Process\<close>, which runs every worker
  whatever its state, so it is no argument of the model.
\<close>

definition delete :: "string list \<Rightarrow> mapperFunc \<Rightarrow> 'v MetricMap list \<Rightarrow> 'v MetricMap list \<times> u32" where
  "delete keys f shards = delete_all keys f shards 0"

text \<open>
  What section 4.3 of the specification asks the count to be: the number of keys actually
  removed, summed over the shards. On one shard these are the distinct listed keys that the
  selected collection holds.
\<close>

definition spec_removed_on_shard :: "string list \<Rightarrow> 'v AggregatedMetrics \<Rightarrow> nat" where
  "spec_removed_on_shard keys metrics = length (filter (\<lambda>k. metrics k \<noteq> None) (remdups keys))"

definition spec_removed :: "string list \<Rightarrow> mapperFunc \<Rightarrow> 'v MetricMap list \<Rightarrow> nat" where
  "spec_removed keys f shards = sum_list (map (\<lambda>m. spec_removed_on_shard keys (applyMapper f m)) shards)"

subsection \<open>Formatting\<close>

text \<open>
  \<^verbatim>\<open>fmt.Sprintf("%d", i)\<close> for an unsigned integer: its decimal digits, most significant first,
  no sign and no padding.
\<close>

fun fmt_d :: "nat \<Rightarrow> string" where
  "fmt_d n = (if n < 10 then [''0123456789'' ! n] else fmt_d (n div 10) @ [''0123456789'' ! (n mod 10)])"

declare fmt_d.simps [simp del]

subsection \<open>Errors\<close>

text \<open>
  The error values that console.go tells apart by identity: \<^verbatim>\<open>context.Canceled\<close>,
  \<^verbatim>\<open>context.DeadlineExceeded\<close> and the package's own \<^verbatim>\<open>errClientQuit\<close>. Every other error
  (a failed read or write on the connection, a failed \<^verbatim>\<open>Listen\<close> or \<^verbatim>\<open>Accept\<close>) is
  \<open>OtherError\<close> with its message. A nil error is \<open>None\<close> of \<open>error option\<close>.
\<close>

datatype error = context_Canceled | context_DeadlineExceeded | errClientQuit | OtherError string

subsection \<open>The read path: printMetrics\<close>

text \<open>
  \<^verbatim>\<open>printMetrics\<close> runs N + 2 goroutines: one work function per worker, the supervisor
  \<^verbatim>\<open>go func() { wg.Wait(); close(results) }()\<close> and the caller, which ranges over the channel.
  The model is an interleaving semantics: a state of all of them, and one event per atomic
  action of a goroutine or of the environment (cancellation of the context). A schedule is a
  list of events; \<open>step\<close> is \<open>None\<close> when the event is not enabled in the state (the
  goroutine is blocked, or is not at that point of its code).
\<close>

text \<open>
  A worker has not yet run the work function (\<open>Queued\<close>), or has serialized its shard into
  its own buffer and stands at the \<^verbatim>\<open>select\<close> (\<open>Selecting buf\<close>), or has left the work
  function (\<open>Finished\<close>), which is when the completion handle counts it
  (modelled from the spec, section 4.1).
\<close>

datatype worker = Queued | Selecting string | Finished

datatype supervisor = SupWaiting | SupClosing | SupExited

datatype event =
    Render nat  \<comment> \<open>worker i: \<^verbatim>\<open>buf := new(bytes.Buffer); fmt.Fprintln(buf, f(m))\<close>\<close>
  | Send nat    \<comment> \<open>worker i: \<^verbatim>\<open>case results <- buf\<close>\<close>
  | Drop nat    \<comment> \<open>worker i: \<^verbatim>\<open>case <-ctx.Done()\<close>\<close>
  | WaitDone    \<comment> \<open>supervisor: \<^verbatim>\<open>wg.Wait()\<close> returns\<close>
  | Close       \<comment> \<open>supervisor: \<^verbatim>\<open>close(results)\<close>\<close>
  | Recv        \<comment> \<open>caller: one iteration of \<^verbatim>\<open>for res := range results\<close>\<close>
  | Return      \<comment> \<open>caller: the range ends, \<^verbatim>\<open>return buf.String(), nil\<close>\<close>
  | Cancel      \<comment> \<open>environment: the context is cancelled or its deadline expires\<close>

record pm_state =
  workers :: "worker list"
  results :: "string list"    \<comment> \<open>the buffered channel, oldest first\<close>
  closed :: bool              \<comment> \<open>the channel has been closed\<close>
  supervisor :: supervisor
  buf :: string               \<comment> \<open>the caller's \<^verbatim>\<open>buf\<close>\<close>
  returned :: "(string \<times> error option) option"
  ctx_done :: bool
  panicked :: bool

text \<open>\<^verbatim>\<open>make(chan *bytes.Buffer, 16)\<close>\<close>

definition results_cap :: nat where
  "results_cap = 16"

text \<open>
  \<^verbatim>\<open>fmt.Fprintln(buf, f(m))\<close>: the default formatting of the selected collection, then a
  newline. The formatting of package fmt is the parameter \<open>render\<close>.
\<close>

definition Fprintln :: "('v AggregatedMetrics \<Rightarrow> string) \<Rightarrow> 'v AggregatedMetrics \<Rightarrow> string" where
  "Fprintln render metrics = render metrics @ [CHR 0x0A]"

text \<open>
  The actions. In Go a send on a closed channel panics, also inside a \<^verbatim>\<open>select\<close>, and so
  does closing a closed channel; a send on a full channel blocks; a receive from an empty
  open channel blocks; \<^verbatim>\<open>range\<close> still delivers what a closed channel holds and ends when it
  is closed and empty. A \<^verbatim>\<open>select\<close> with several ready cases takes any of them. After a panic
  the process is gone and nothing is enabled.
\<close>

fun action :: "('v AggregatedMetrics \<Rightarrow> string) \<Rightarrow> mapperFunc \<Rightarrow> 'v MetricMap list \<Rightarrow>
    event \<Rightarrow> pm_state \<Rightarrow> pm_state option" where
  "action render f shards (Render i) s =
     (if i < length (workers s) \<and> i < length shards \<and> workers s ! i = Queued
      then Some (s\<lparr>workers := (workers s)[i := Selecting (Fprintln render (applyMapper f (shards ! i)))]\<rparr>)
      else None)"
| "action render f shards (Send i) s =
     (if i < length (workers s) then
        (case workers s ! i of
           Selecting b \<Rightarrow>
             if closed s then Some (s\<lparr>panicked := True\<rparr>)
             else if length (results s) < results_cap
             then Some (s\<lparr>results := results s @ [b], workers := (workers s)[i := Finished]\<rparr>)
             else None
         | _ \<Rightarrow> None)
      else None)"
| "action render f shards (Drop i) s =
     (if i < length (workers s) then
        (case workers s ! i of
           Selecting b \<Rightarrow>
             if ctx_done s then Some (s\<lparr>workers := (workers s)[i := Finished]\<rparr>) else None
         | _ \<Rightarrow> None)
      else None)"
| "action render f shards WaitDone s =
     (if supervisor s = SupWaiting \<and> list_all (\<lambda>w. w = Finished) (workers s)
      then Some (s\<lparr>supervisor := SupClosing\<rparr>) else None)"
| "action render f shards Close s =
     (if supervisor s = SupClosing
      then (if closed s then Some (s\<lparr>panicked := True\<rparr>)
            else Some (s\<lparr>closed := True, supervisor := SupExited\<rparr>))
      else None)"
| "action render f shards Recv s =
     (if returned s = None then
        (case results s of
           [] \<Rightarrow> None
         | res # rest \<Rightarrow> Some (s\<lparr>results := rest, buf := buf s @ res\<rparr>))
      else None)"
| "action render f shards Return s =
     (if returned s = None \<and> results s = [] \<and> closed s
      then Some (s\<lparr>returned := Some (buf s, None)\<rparr>) else None)"
| "action render f shards Cancel s =
     (if ctx_done s then None else Some (s\<lparr>ctx_done := True\<rparr>))"

definition step :: "('v AggregatedMetrics \<Rightarrow> string) \<Rightarrow> mapperFunc \<Rightarrow> 'v MetricMap list \<Rightarrow>
    event \<Rightarrow> pm_state \<Rightarrow> pm_state option" where
  "step render f shards e s = (if panicked s then None else action render f shards e s)"

fun run :: "('v AggregatedMetrics \<Rightarrow> string) \<Rightarrow> mapperFunc \<Rightarrow> 'v MetricMap list \<Rightarrow>
    event list \<Rightarrow> pm_state \<Rightarrow> pm_state option" where
  "run render f shards [] s = Some s"
| "run render f shards (e # es) s =
     (case step render f shards e s of
        None \<Rightarrow> None
      | Some s' \<Rightarrow> run render f shards es s')"

text \<open>
  The state in which \<^verbatim>\<open>printMetrics(ctx, f)\<close> starts: the channel is made, the work function
  is submitted to every worker (\<^verbatim>\<open>Dispatcher.Process\<close>, modelled from the spec: once per
  worker), the supervisor is started, the caller's buffer is empty. \<open>ctx\<close> says whether the
  context is done already.
\<close>

definition printMetrics_start :: "bool \<Rightarrow> 'v MetricMap list \<Rightarrow> pm_state" where
  "printMetrics_start ctx shards =
     \<lparr>workers = map (\<lambda>m. Queued) shards, results = [], closed = False,
      supervisor = SupWaiting, buf = [], returned = None, ctx_done = ctx, panicked = False\<rparr>"

text \<open>
  \<^verbatim>\<open>printMetrics\<close> under the schedule \<open>es\<close>: what it returns, if the schedule is one of its
  runs and the caller returns in it.
\<close>

definition printMetrics :: "('v AggregatedMetrics \<Rightarrow> string) \<Rightarrow> event list \<Rightarrow> bool \<Rightarrow> mapperFunc \<Rightarrow>
    'v MetricMap list \<Rightarrow> (string \<times> error option) option" where
  "printMetrics render es ctx f shards =
     (case run render f shards es (printMetrics_start ctx shards) of
        None \<Rightarrow> None
      | Some s \<Rightarrow> returned s)"

text \<open>The serialized snapshots, one per shard, in worker order.\<close>

definition snapshots :: "('v AggregatedMetrics \<Rightarrow> string) \<Rightarrow> mapperFunc \<Rightarrow> 'v MetricMap list \<Rightarrow> string list" where
  "snapshots render f shards = map (\<lambda>m. Fprintln render (applyMapper f m)) shards"

text \<open>
  The events of the program itself. A state from which none of them is enabled and in which
  the caller has not returned would be a deadlock.
\<close>

definition program_events :: "pm_state \<Rightarrow> event list" where
  "program_events s =
     map Render [0..<length (workers s)] @ map Send [0..<length (workers s)] @
     map Drop [0..<length (workers s)] @ [WaitDone, Close, Recv, Return]"

definition can_proceed :: "('v AggregatedMetrics \<Rightarrow> string) \<Rightarrow> mapperFunc \<Rightarrow> 'v MetricMap list \<Rightarrow>
    pm_state \<Rightarrow> bool" where
  "can_proceed render f shards s =
     list_ex (\<lambda>e. step render f shards e s \<noteq> None) (program_events s)"

subsection \<open>Invariants and the termination measure of the read path\<close>

definition finished_set :: "pm_state \<Rightarrow> nat set" where
  "finished_set s = {i. i < length (workers s) \<and> workers s ! i = Finished}"

text \<open>
  Control: the supervisor passes \<^verbatim>\<open>wg.Wait()\<close> only when every worker has left the work
  function, the channel is closed exactly when the supervisor has exited, and the caller
  returns its own buffer and a nil error from a closed, drained channel.
\<close>

definition ctl_inv :: "nat \<Rightarrow> pm_state \<Rightarrow> bool" where
  "ctl_inv n s \<longleftrightarrow>
     length (workers s) = n \<and> \<not> panicked s \<and>
     (supervisor s \<noteq> SupWaiting \<longrightarrow> (\<forall>i<n. workers s ! i = Finished)) \<and>
     (closed s \<longleftrightarrow> supervisor s = SupExited) \<and>
     (\<forall>r. returned s = Some r \<longrightarrow> r = (buf s, None) \<and> results s = [] \<and> closed s)"

text \<open>A worker at its \<^verbatim>\<open>select\<close> holds the snapshot of its own shard.\<close>

definition buf_inv :: "string list \<Rightarrow> pm_state \<Rightarrow> bool" where
  "buf_inv B s \<longleftrightarrow> (\<forall>i b. i < length (workers s) \<longrightarrow> workers s ! i = Selecting b \<longrightarrow> b = B ! i)"

text \<open>
  Data: the caller's buffer and the channel hold the snapshots of distinct workers, all of
  which have left the work function; while the context is not done, they hold the snapshot of
  every such worker.
\<close>

definition data_inv :: "string list \<Rightarrow> pm_state \<Rightarrow> bool" where
  "data_inv B s \<longleftrightarrow>
     (\<exists>xs ys. buf s = concat (map ((!) B) xs) \<and> results s = map ((!) B) ys \<and>
        distinct (xs @ ys) \<and> set (xs @ ys) \<subseteq> finished_set s \<and>
        (\<not> ctx_done s \<longrightarrow> set (xs @ ys) = finished_set s))"

definition pm_inv :: "('v AggregatedMetrics \<Rightarrow> string) \<Rightarrow> mapperFunc \<Rightarrow> 'v MetricMap list \<Rightarrow>
    pm_state \<Rightarrow> bool" where
  "pm_inv render f shards s \<longleftrightarrow>
     ctl_inv (length shards) s \<and> buf_inv (snapshots render f shards) s \<and>
     data_inv (snapshots render f shards) s"

fun worker_weight :: "worker \<Rightarrow> nat" where
  "worker_weight Queued = 3"
| "worker_weight (Selecting b) = 2"
| "worker_weight Finished = 0"

fun supervisor_weight :: "supervisor \<Rightarrow> nat" where
  "supervisor_weight SupWaiting = 2"
| "supervisor_weight SupClosing = 1"
| "supervisor_weight SupExited = 0"

text \<open>An upper bound on the number of events that can still happen.\<close>

definition remaining :: "pm_state \<Rightarrow> nat" where
  "remaining s =
     sum_list (map worker_weight (workers s)) + supervisor_weight (supervisor s) +
     length (results s) + (if returned s = None then 1 else 0) +
     (if ctx_done s then 0 else 1) + (if panicked s then 0 else 1)"

subsection \<open>The console server and its collaborators\<close>

text \<open>
  Modelled from the spec: the result of \<^verbatim>\<open>Receiver.GetStats()\<close> (sections 3 and 6): bad-line
  count, metrics and packets received, last-packet timestamp. A timestamp is an integer here;
  how package fmt prints it is a parameter.
\<close>

record ReceiverStats =
  BadLines :: nat
  MetricsReceived :: nat
  PacketsReceived :: nat
  LastPacket :: int

text \<open>
  Modelled from the spec: the result of \<^verbatim>\<open>Flusher.GetStats()\<close> (sections 3 and 6): last-flush
  timestamp and last-flush error.
\<close>

record FlusherStats =
  LastFlush :: int
  LastFlushError :: "error option"

text \<open>
  \<^verbatim>\<open>type ConsoleServer struct { Addr string; Receiver Receiver; Dispatcher Dispatcher;
  Flusher Flusher }\<close>. The three collaborators are interfaces; the record holds what the
  console can observe of them: the statistics \<^verbatim>\<open>GetStats\<close> returns, and the shards of the
  Dispatcher's workers.
\<close>

record 'v ConsoleServer =
  Addr :: string
  Receiver :: ReceiverStats
  Dispatcher :: "'v MetricMap list"
  Flusher :: FlusherStats

text \<open>\<^verbatim>\<open>const DefaultConsoleAddr = ":8126"\<close>\<close>

definition DefaultConsoleAddr :: string where
  "DefaultConsoleAddr = '':8126''"

text \<open>
  What the closures of the command table work on: the server \<^verbatim>\<open>s\<close>, the state of the
  context \<^verbatim>\<open>ctx\<close> they capture (done or not), and the interleavings that the Go scheduler
  and the environment will choose for the coming fan-out reads, one schedule per call of
  \<^verbatim>\<open>printMetrics\<close>.
\<close>

record 'v session_state =
  server :: "'v ConsoleServer"
  ctx_state :: bool
  scheduler :: "event list list"

text \<open>
  The functions of other packages that console.go calls and whose results are text:
  the \<^verbatim>\<open>%v\<close> formatting of package fmt for a metrics collection, a timestamp and an error, and
  the line with which the console library answers an unknown command.
\<close>

record 'v externals =
  fmt_metrics :: "'v AggregatedMetrics \<Rightarrow> string"
  fmt_time :: "int \<Rightarrow> string"
  fmt_error :: "error option \<Rightarrow> string"
  unknown_reply :: "string \<Rightarrow> string"

subsection \<open>The command table\<close>

text \<open>
  \<^verbatim>\<open>type CmdFn func(args []string) (string, error)\<close>, with the state it reads and writes made
  explicit. The result is \<open>None\<close> when the call does not return under the scheduler's
  schedule.
\<close>

type_synonym 'v CmdFn =
  "string list \<Rightarrow> 'v session_state \<Rightarrow> ((string \<times> error option) \<times> 'v session_state) option"

definition help_text :: string where
  "help_text =
     ''Commands: stats, counters, timers, gauges, delcounters, deltimers, delgauges, quit'' @ [CHR 0x0A]"

definition cmd_help :: "'v CmdFn" where
  "cmd_help args st = Some ((help_text, None), st)"

definition cmd_stats :: "'v externals \<Rightarrow> 'v CmdFn" where
  "cmd_stats ext args st =
     (let receiverStats = Receiver (server st); flusherStats = Flusher (server st)
      in Some ((''Invalid messages received: '' @ fmt_d (BadLines receiverStats) @ [CHR 0x0A] @
                ''Metrics received: '' @ fmt_d (MetricsReceived receiverStats) @ [CHR 0x0A] @
                ''Packets received: '' @ fmt_d (PacketsReceived receiverStats) @ [CHR 0x0A] @
                ''Last packet received: '' @ fmt_time ext (LastPacket receiverStats) @ [CHR 0x0A] @
                ''Last flush to backends: '' @ fmt_time ext (LastFlush flusherStats) @ [CHR 0x0A] @
                ''Last error from backends: '' @ fmt_error ext (LastFlushError flusherStats) @ [CHR 0x0A],
                None), st))"

text \<open>
  \<^verbatim>\<open>return s.printMetrics(ctx, f)\<close>: the next schedule of the scheduler is run on the
  Dispatcher's shards; the context keeps the state in which the run leaves it.
\<close>

definition cmd_printMetrics :: "'v externals \<Rightarrow> mapperFunc \<Rightarrow> 'v CmdFn" where
  "cmd_printMetrics ext f args st =
     (case scheduler st of
        [] \<Rightarrow> None
      | es # rest \<Rightarrow>
          (case run (fmt_metrics ext) f (Dispatcher (server st)) es
                  (printMetrics_start (ctx_state st) (Dispatcher (server st))) of
             None \<Rightarrow> None
           | Some s \<Rightarrow>
               (case returned s of
                  None \<Rightarrow> None
                | Some r \<Rightarrow> Some (r, st\<lparr>ctx_state := ctx_done s, scheduler := rest\<rparr>))))"

text \<open>
  \<^verbatim>\<open>i := s.delete(ctx, args, f); return fmt.Sprintf("deleted %d <kind>\n", i), nil\<close>
\<close>

definition cmd_delete :: "mapperFunc \<Rightarrow> string \<Rightarrow> 'v CmdFn" where
  "cmd_delete f kind args st =
     (case delete args f (Dispatcher (server st)) of
        (shards', i) \<Rightarrow>
          Some ((''deleted '' @ fmt_d (unat i) @ '' '' @ kind @ [CHR 0x0A], None),
                st\<lparr>server := (server st)\<lparr>Dispatcher := shards'\<rparr>\<rparr>))"

definition cmd_quit :: "'v CmdFn" where
  "cmd_quit args st = Some ((''goodbye'' @ [CHR 0x0A], Some errClientQuit), st)"

text \<open>The map literal \<^verbatim>\<open>commands := map[string]cmd.CmdFn{...}\<close> of \<^verbatim>\<open>Serve\<close>.\<close>

definition commands :: "'v externals \<Rightarrow> string \<rightharpoonup> 'v CmdFn" where
  "commands ext =
     [''help'' \<mapsto> cmd_help,
      ''stats'' \<mapsto> cmd_stats ext,
      ''counters'' \<mapsto> cmd_printMetrics ext getCounters,
      ''timers'' \<mapsto> cmd_printMetrics ext getTimers,
      ''gauges'' \<mapsto> cmd_printMetrics ext getGauges,
      ''sets'' \<mapsto> cmd_printMetrics ext getSets,
      ''delcounters'' \<mapsto> cmd_delete getCounters ''counters'',
      ''deltimers'' \<mapsto> cmd_delete getTimers ''timers'',
      ''delgauges'' \<mapsto> cmd_delete getGauges ''gauges'',
      ''delsets'' \<mapsto> cmd_delete getSets ''sets'',
      ''quit'' \<mapsto> cmd_quit]"

text \<open>The response the specification gives for the delete commands (section 4.5).\<close>

definition spec_deleted_reply :: "nat \<Rightarrow> string \<Rightarrow> string" where
  "spec_deleted_reply n kind = ''deleted '' @ fmt_d n @ '' '' @ kind @ [CHR 0x0A]"

subsection \<open>The session\<close>

text \<open>
  Modelled from the spec: the tokenizer of the console library \<^verbatim>\<open>github.com/kisielk/cmd\<close>,
  which console.go only imports. Section 4.4: the first whitespace-delimited token of a line
  selects the command, the remaining tokens are its arguments, and a blank or whitespace-only
  line has no token.
\<close>

definition is_space :: "char \<Rightarrow> bool" where
  "is_space c \<longleftrightarrow> c = CHR '' '' \<or> c = CHR 0x09 \<or> c = CHR 0x0A \<or> c = CHR 0x0D"

fun tokens :: "string \<Rightarrow> string \<Rightarrow> string list" where
  "tokens cur [] = (if cur = [] then [] else [cur])"
| "tokens cur (c # cs) =
     (if is_space c then (if cur = [] then tokens [] cs else cur # tokens [] cs)
      else tokens (cur @ [c]) cs)"

text \<open>
  Modelled from the spec: \<^verbatim>\<open>console.Loop()\<close> of the library \<^verbatim>\<open>github.com/kisielk/cmd\<close>,
  which console.go only imports. Section 4.4: a line is read; a blank line gives no output;
  the first token selects the command from the table; an unknown name is answered with an
  error line and the loop goes on; the command runs and its response is written; a command's
  error ends the loop, the response already written; a failed read (connection error,
  cancellation, deadline) ends the loop with its error.

  The session's input is the list of the lines the client sends and the error \<open>read_end\<close>
  of the read that follows the last of them. The loop returns its error, the responses
  written and the state. The writes of the prompt are not modelled.
\<close>

fun Loop :: "(string \<Rightarrow> string) \<Rightarrow> (string \<rightharpoonup> 'v CmdFn) \<Rightarrow> string list \<Rightarrow> error option \<Rightarrow>
    'v session_state \<Rightarrow> string list \<Rightarrow> (error option \<times> string list \<times> 'v session_state) option" where
  "Loop unknown cmds [] read_end st out = Some (read_end, out, st)"
| "Loop unknown cmds (line # rest) read_end st out =
     (case tokens [] line of
        [] \<Rightarrow> Loop unknown cmds rest read_end st out
      | name # args \<Rightarrow>
          (case cmds name of
             None \<Rightarrow> Loop unknown cmds rest read_end st (out @ [unknown name])
           | Some fn \<Rightarrow>
               (case fn args st of
                  None \<Rightarrow> None
                | Some ((reply, err), st') \<Rightarrow>
                    (case err of
                       None \<Rightarrow> Loop unknown cmds rest read_end st' (out @ [reply])
                     | Some e \<Rightarrow> Some (Some e, out @ [reply], st')))))"

text \<open>
  A console loop, as \<^verbatim>\<open>serveConnection\<close> sees it: from the command table, the prompt and the
  state to the error returned, the responses written to the connection and the new state.
\<close>

type_synonym 'v console_loop =
  "(string \<rightharpoonup> 'v CmdFn) \<Rightarrow> string \<Rightarrow> 'v session_state \<Rightarrow>
     (error option \<times> string list \<times> 'v session_state) option"

definition cmd_Loop :: "'v externals \<Rightarrow> string list \<Rightarrow> error option \<Rightarrow> 'v console_loop" where
  "cmd_Loop ext lines read_end cmds prompt st = Loop (unknown_reply ext) cmds lines read_end st []"

text \<open>
  The process as the sessions see it: the shared state of the closures, what has been written
  to each connection, the log, and the connections that are open.
\<close>

record 'v system =
  session :: "'v session_state"
  sent :: "nat \<Rightarrow> string list"
  logged :: "string list"
  open_conns :: "nat set"

text \<open>
  \<^verbatim>\<open>
  func (s *ConsoleServer) serveConnection(ctx, conn, commands) {
      defer conn.Close()
      console := cmd.New(commands, conn, conn)
      console.Prompt = "console> "
      if err := console.Loop(); err != nil && err != context.Canceled &&
         err != context.DeadlineExceeded && err != errClientQuit {
          log.Infof("Problem with console connection: %v", err)
      }
  }
  \<close>
  The body does not use \<^verbatim>\<open>ctx\<close>. The console loop is a parameter.
\<close>

definition serveConnection :: "'v externals \<Rightarrow> 'v console_loop \<Rightarrow> nat \<Rightarrow> (string \<rightharpoonup> 'v CmdFn) \<Rightarrow>
    'v system \<Rightarrow> 'v system option" where
  "serveConnection ext loop conn cmds sys =
     (case loop cmds ''console> '' (session sys) of
        None \<Rightarrow> None
      | Some (err, written, st') \<Rightarrow>
          Some (sys\<lparr>session := st',
                   sent := (sent sys)(conn := sent sys conn @ written),
                   logged :=
                     (if err \<noteq> None \<and> err \<noteq> Some context_Canceled \<and>
                         err \<noteq> Some context_DeadlineExceeded \<and> err \<noteq> Some errClientQuit
                      then logged sys @ [''Problem with console connection: '' @ fmt_error ext err]
                      else logged sys),
                   open_conns := open_conns sys - {conn}\<rparr>))"

subsection \<open>The listener\<close>

text \<open>
  What the environment does while \<^verbatim>\<open>Serve\<close> runs: a call of \<^verbatim>\<open>l.Accept()\<close> returns a
  connection or an error, or the context is cancelled. \<^verbatim>\<open>Serve\<close> is run on a finite trace of
  such events; at the end of the trace it is blocked in \<^verbatim>\<open>Accept\<close>.
\<close>

datatype net_event = Accepted nat | AcceptFailed error | CtxCancelled

text \<open>
  \<^verbatim>\<open>
  for {
      c, err := l.Accept()
      if err != nil {
          return err
      }
      go s.serveConnection(ctx, c, commands)
  }
  \<close>
  The result is the error returned (\<open>None\<close>: \<^verbatim>\<open>Serve\<close> has not returned), the connections
  for which a session was started, in order, and the state of the context.
\<close>

fun Serve :: "bool \<Rightarrow> net_event list \<Rightarrow> nat list \<Rightarrow> error option \<times> nat list \<times> bool" where
  "Serve ctx [] started = (None, started, ctx)"
| "Serve ctx (Accepted c # evs) started = Serve ctx evs (started @ [c])"
| "Serve ctx (AcceptFailed err # evs) started = (Some err, started, ctx)"
| "Serve ctx (CtxCancelled # evs) started = Serve True evs started"

text \<open>
  \<^verbatim>\<open>
  addr := s.Addr
  if addr == "" { addr = DefaultConsoleAddr }
  l, err := net.Listen("tcp", addr)
  if err != nil { return err }
  defer l.Close()
  return s.Serve(ctx, l)
  \<close>
  \<open>net_Listen\<close> is the environment: the error of listening on an address, or \<open>None\<close>.
\<close>

record listen_result =
  listen_addr :: string               \<comment> \<open>the address given to \<^verbatim>\<open>net.Listen\<close>\<close>
  result :: "error option"            \<comment> \<open>the error returned; \<open>None\<close>: has not returned\<close>
  sessions :: "nat list"              \<comment> \<open>the connections served\<close>
  listener_closed :: bool

definition ListenAndServe :: "'v ConsoleServer \<Rightarrow> bool \<Rightarrow> (string \<Rightarrow> error option) \<Rightarrow>
    net_event list \<Rightarrow> listen_result" where
  "ListenAndServe s ctx net_Listen evs =
     (let addr = (if Addr s = [] then DefaultConsoleAddr else Addr s)
      in case net_Listen addr of
           Some err \<Rightarrow>
             \<lparr>listen_addr = addr, result = Some err, sessions = [], listener_closed = False\<rparr>
         | None \<Rightarrow>
             (case Serve ctx evs [] of
                (r, started, c) \<Rightarrow>
                  \<lparr>listen_addr = addr, result = r, sessions = started,
                   listener_closed = (r \<noteq> None)\<rparr>))"

subsection \<open>Example data\<close>

text \<open>
  The two shards of the example in section 8 of the specification: shard 0 holds the counter
  \<open>a\<close> with value 5, shard 1 the counter \<open>b\<close> with value 3; and a formatting that prints
  the entries for \<open>a\<close> and \<open>b\<close>.
\<close>

definition example_shards :: "nat MetricMap list" where
  "example_shards =
     [\<lparr>Counters = [''a'' \<mapsto> 5], Timers = Map.empty, Gauges = Map.empty, Sets = Map.empty\<rparr>,
      \<lparr>Counters = [''b'' \<mapsto> 3], Timers = Map.empty, Gauges = Map.empty, Sets = Map.empty\<rparr>]"

definition example_render :: "nat AggregatedMetrics \<Rightarrow> string" where
  "example_render metrics =
     concat (map (\<lambda>k. case metrics k of None \<Rightarrow> [] | Some v \<Rightarrow> k @ ''='' @ fmt_d v) [''a'', ''b''])"

text \<open>
  Formatting functions for the examples, and a process with the example shards and two open
  connections.
\<close>

definition example_externals :: "nat externals" where
  "example_externals =
     \<lparr>fmt_metrics = example_render, fmt_time = (\<lambda>t. fmt_d (nat t)),
      fmt_error = (\<lambda>e. case e of Some (OtherError msg) \<Rightarrow> msg | _ \<Rightarrow> ''error''),
      unknown_reply = (\<lambda>name. ''unknown command: '' @ name @ [CHR 0x0A])\<rparr>"

definition example_system :: "nat system" where
  "example_system =
     \<lparr>session =
        \<lparr>server =
           \<lparr>Addr = [],
            Receiver = \<lparr>BadLines = 0, MetricsReceived = 2, PacketsReceived = 2, LastPacket = 0\<rparr>,
            Dispatcher = example_shards,
            Flusher = \<lparr>LastFlush = 0, LastFlushError = None\<rparr>\<rparr>,
         ctx_state = False, scheduler = []\<rparr>,
      sent = (\<lambda>c. []), logged = [], open_conns = {1, 2}\<rparr>"

section \<open>Properties\<close>

subsection \<open>Properties of the delete path\<close>

lemma delete_loop_count: "snd (delete_loop keys metrics i) = i + of_nat (length keys)"
  by (induction keys arbitrary: metrics i) (simp_all add: add.assoc add.commute)

lemma delete_loop_map: "fst (delete_loop keys metrics i) = (\<lambda>k. if k \<in> set keys then None else metrics k)"
  by (induction keys arbitrary: metrics i) (auto simp: Delete_def fun_eq_iff)

lemma delete_work_count: "snd (delete_work keys f m) = of_nat (length keys)"
proof (cases "delete_loop keys (applyMapper f m) 0")
  case (Pair metrics i)
  with delete_loop_count [of keys "applyMapper f m" 0] show ?thesis
    by (simp add: delete_work_def)
qed

lemma delete_all_count:
  "snd (delete_all keys f shards counter) = counter + of_nat (length shards * length keys)"
proof (induction shards arbitrary: counter)
  case Nil
  show ?case by simp
next
  case (Cons m shards)
  obtain m' i where w: "delete_work keys f m = (m', i)"
    by (cases "delete_work keys f m")
  obtain shards' c' where r: "delete_all keys f shards (counter + i) = (shards', c')"
    by (cases "delete_all keys f shards (counter + i)")
  have "i = of_nat (length keys)"
    using delete_work_count [of keys f m] w by simp
  moreover have "c' = counter + i + of_nat (length shards * length keys)"
    using Cons [of "counter + i"] r by simp
  ultimately show ?case
    using w r by (simp add: algebra_simps)
qed

lemma delete_returns_attempts:
  "snd (delete keys f shards) = of_nat (length shards * length keys)"
  by (simp add: delete_def delete_all_count)

lemma applyMapper_storeMapper: "applyMapper f (storeMapper f c m) = c"
  by (cases f) simp_all

lemma delete_work_removes:
  "applyMapper f (fst (delete_work keys f m)) =
     (\<lambda>k. if k \<in> set keys then None else applyMapper f m k)"
proof (cases "delete_loop keys (applyMapper f m) 0")
  case (Pair metrics i)
  with delete_loop_map [of keys "applyMapper f m" 0] show ?thesis
    by (simp add: delete_work_def applyMapper_storeMapper)
qed

lemma delete_all_removes:
  "map (applyMapper f) (fst (delete_all keys f shards counter)) =
     map (\<lambda>m k. if k \<in> set keys then None else applyMapper f m k) shards"
proof (induction shards arbitrary: counter)
  case Nil
  show ?case by simp
next
  case (Cons m shards)
  obtain m' i where w: "delete_work keys f m = (m', i)"
    by (cases "delete_work keys f m")
  obtain shards' c' where r: "delete_all keys f shards (counter + i) = (shards', c')"
    by (cases "delete_all keys f shards (counter + i)")
  have "applyMapper f m' = (\<lambda>k. if k \<in> set keys then None else applyMapper f m k)"
    using delete_work_removes [of f keys m] w by simp
  moreover have "map (applyMapper f) shards' =
      map (\<lambda>m k. if k \<in> set keys then None else applyMapper f m k) shards"
    using Cons [of "counter + i"] r by simp
  ultimately show ?case
    using w r by simp
qed

lemma delete_removes_listed_keys:
  "map (applyMapper f) (fst (delete keys f shards)) =
     map (\<lambda>m k. if k \<in> set keys then None else applyMapper f m k) shards"
  by (simp add: delete_def delete_all_removes)

text \<open>
  Claim C1 (the code does not do this). \<^verbatim>\<open>delete\<close> is claimed to return the number of keys
  actually removed over all shards, so \<^verbatim>\<open>delcounters a b a\<close>, with \<open>a\<close> in one shard and
  \<open>b\<close> in another, is claimed to return 2. The loop of the source increments \<^verbatim>\<open>i\<close> for
  every listed key, present or not (\<open>delete_returns_attempts\<close>: the result is the number of
  shards times the number of listed keys, modulo \<open>2 ^ 32\<close>; \<open>delete_removes_listed_keys\<close>:
  every listed key is gone from the selected collection of every shard). On the two example shards the
  call returns 6 where 2 keys are removed, and deleting an absent key returns 2 where nothing
  is removed. The keys themselves are removed as claimed.
\<close>

theorem delete_counts_every_listed_key:
  "snd (delete [''a'', ''b'', ''a''] getCounters example_shards) = 6 \<and>
   spec_removed [''a'', ''b'', ''a''] getCounters example_shards = 2 \<and>
   snd (delete [''absent''] getCounters example_shards) = 2 \<and>
   spec_removed [''absent''] getCounters example_shards = 0 \<and>
   map (\<lambda>m. (Counters m ''a'', Counters m ''b''))
       (fst (delete [''a'', ''b'', ''a''] getCounters example_shards))
     = [(None, None), (None, None)] \<and>
   map_option (\<lambda>fn. map_option fst (fn [''a'', ''b'', ''a''] (session example_system)))
       (commands example_externals ''delcounters'')
     = Some (Some (''deleted 6 counters'' @ [CHR 0x0A], None))"
proof -
  have d: "snd (delete [''a'', ''b'', ''a''] getCounters example_shards) = 6"
    by (simp add: delete_def delete_work_def example_shards_def)
  obtain shards' where p: "delete [''a'', ''b'', ''a''] getCounters example_shards = (shards', 6)"
    using d by (cases "delete [''a'', ''b'', ''a''] getCounters example_shards") simp
  have e: "Dispatcher (server (session example_system)) = example_shards"
    by (simp add: example_system_def)
  have f: "fmt_d 6 = ''6''"
    by (simp add: fmt_d.simps)
  have "map_option (\<lambda>fn. map_option fst (fn [''a'', ''b'', ''a''] (session example_system)))
       (commands example_externals ''delcounters'')
     = Some (Some (''deleted 6 counters'' @ [CHR 0x0A], None))"
    by (simp add: commands_def cmd_delete_def e p f)
  moreover have "spec_removed [''a'', ''b'', ''a''] getCounters example_shards = 2"
    "snd (delete [''absent''] getCounters example_shards) = 2"
    "spec_removed [''absent''] getCounters example_shards = 0"
    "map (\<lambda>m. (Counters m ''a'', Counters m ''b''))
       (fst (delete [''a'', ''b'', ''a''] getCounters example_shards))
     = [(None, None), (None, None)]"
    by (simp_all add: delete_def delete_work_def example_shards_def Delete_def
        spec_removed_def spec_removed_on_shard_def)
  ultimately show ?thesis
    using d by blast
qed

subsection \<open>Properties of the read path\<close>

lemma finished_set_update:
  "i < length (workers s) \<Longrightarrow> finished_set (s\<lparr>workers := (workers s)[i := Finished]\<rparr>) = insert i (finished_set s)"
  by (auto simp: finished_set_def nth_list_update)

lemma finished_set_update_sel:
  "i < length (workers s) \<Longrightarrow> workers s ! i \<noteq> Finished \<Longrightarrow> finished_set (s\<lparr>workers := (workers s)[i := Selecting b]\<rparr>) = finished_set s"
  by (auto simp: finished_set_def nth_list_update)

lemma start_ctl: "ctl_inv (length shards) (printMetrics_start ctx shards)"
  by (simp add: ctl_inv_def printMetrics_start_def)

lemma start_buf: "buf_inv B (printMetrics_start ctx shards)"
  by (simp add: buf_inv_def printMetrics_start_def)

lemma start_data: "data_inv B (printMetrics_start ctx shards)"
  unfolding data_inv_def
  by (rule exI [of _ "[]"], rule exI [of _ "[]"]) (simp add: printMetrics_start_def finished_set_def)

lemma step_ctl:
  assumes "step render f shards e s = Some t" "ctl_inv n s"
  shows "ctl_inv n t"
proof (cases e)
  case (Render i)
  with assms show ?thesis
    by (auto simp: step_def ctl_inv_def nth_list_update split: if_splits)
next
  case (Send i)
  with assms show ?thesis
    by (auto simp: step_def ctl_inv_def nth_list_update split: if_splits worker.splits)
next
  case (Drop i)
  with assms show ?thesis 
    by (auto simp: step_def ctl_inv_def nth_list_update split: if_splits worker.splits)
next
  case WaitDone
  with assms show ?thesis
    by (auto simp: step_def ctl_inv_def list_all_length split: if_splits)
next
  case Close
  with assms show ?thesis
    by (auto simp: step_def ctl_inv_def split: if_splits)
next
  case Recv
  with assms show ?thesis
    by (auto simp: step_def ctl_inv_def split: if_splits list.splits)
next
  case Return
  with assms show ?thesis
    by (auto simp: step_def ctl_inv_def split: if_splits)
next
  case Cancel
  with assms show ?thesis
    by (auto simp: step_def ctl_inv_def split: if_splits)
qed

lemma step_buf:
  assumes "step render f shards e s = Some t" "buf_inv (snapshots render f shards) s"
  shows "buf_inv (snapshots render f shards) t"
proof (cases e)
  case (Render i)
  with assms show ?thesis
    by (auto simp: step_def buf_inv_def snapshots_def nth_list_update split: if_splits)
next
  case (Send i)
  with assms show ?thesis
    by (auto simp: step_def buf_inv_def nth_list_update split: if_splits worker.splits)
next
  case (Drop i)
  with assms show ?thesis 
    by (auto simp: step_def buf_inv_def nth_list_update split: if_splits worker.splits)
qed (use assms in \<open>auto simp: step_def buf_inv_def split: if_splits list.splits\<close>)

lemma finished_set_eq:
  "workers t = workers s \<Longrightarrow> finished_set t = finished_set s"
  by (simp add: finished_set_def)

lemma step_data:
  assumes st: "step render f shards e s = Some t"
    and bi: "buf_inv B s"
    and di: "data_inv B s"
  shows "data_inv B t"
proof -
  from di obtain xs ys where
    b: "buf s = concat (map ((!) B) xs)" and r: "results s = map ((!) B) ys" and
    d: "distinct (xs @ ys)" and sub: "set (xs @ ys) \<subseteq> finished_set s" and
    eq: "\<not> ctx_done s \<Longrightarrow> set (xs @ ys) = finished_set s"
    unfolding data_inv_def by blast
  show ?thesis
  proof (cases e)
    case (Render i)
    with st have i: "i < length (workers s)" "workers s ! i = Queued"
      and t: "t = s\<lparr>workers := (workers s)[i := Selecting (Fprintln render (applyMapper f (shards ! i)))]\<rparr>"
      by (auto simp: step_def split: if_splits)
    have fs: "finished_set t = finished_set s"
      unfolding t using i by (simp add: finished_set_update_sel)
    show ?thesis
      unfolding data_inv_def
      using b r d sub eq fs by (intro exI [of _ xs] exI [of _ ys]) (simp add: t)
  next
    case (Send i)
    with st obtain bb where i: "i < length (workers s)" "workers s ! i = Selecting bb"
      and t: "t = s\<lparr>panicked := True\<rparr> \<or>
              t = s\<lparr>results := results s @ [bb], workers := (workers s)[i := Finished]\<rparr>"
      by (auto simp: step_def split: if_splits worker.splits)
    from t show ?thesis
    proof
      assume t: "t = s\<lparr>panicked := True\<rparr>"
      show ?thesis
        unfolding data_inv_def
        using b r d sub eq
        by (intro exI [of _ xs] exI [of _ ys]) (simp add: t finished_set_def)
    next
      assume t: "t = s\<lparr>results := results s @ [bb], workers := (workers s)[i := Finished]\<rparr>"
      have bb: "bb = B ! i"
        using bi i by (simp add: buf_inv_def)
      have ni: "i \<notin> finished_set s"
        using i by (simp add: finished_set_def)
      have fs: "finished_set t = insert i (finished_set s)"
        unfolding t using i by (auto simp: finished_set_def nth_list_update)
      show ?thesis
        unfolding data_inv_def
        using b r d sub eq fs ni bb
        by (intro exI [of _ xs] exI [of _ "ys @ [i]"]) (auto simp: t)
    qed
  next
    case (Drop i)
    with st obtain bb where i: "i < length (workers s)" "workers s ! i = Selecting bb"
      and c: "ctx_done s"
      and t: "t = s\<lparr>workers := (workers s)[i := Finished]\<rparr>"
      by (auto simp: step_def split: if_splits worker.splits)
    have fs: "finished_set t = insert i (finished_set s)"
      unfolding t using i by (auto simp: finished_set_def nth_list_update)
    show ?thesis
      unfolding data_inv_def
      using b r d sub c fs
      by (intro exI [of _ xs] exI [of _ ys]) (auto simp: t)
  next
    case WaitDone
    with st have t: "t = s\<lparr>supervisor := SupClosing\<rparr>"
      by (auto simp: step_def split: if_splits)
    show ?thesis
      unfolding data_inv_def
      using b r d sub eq
      by (intro exI [of _ xs] exI [of _ ys]) (simp add: t finished_set_def)
  next
    case Close
    with st have t: "t = s\<lparr>panicked := True\<rparr> \<or> t = s\<lparr>closed := True, supervisor := SupExited\<rparr>"
      by (auto simp: step_def split: if_splits)
    show ?thesis
      unfolding data_inv_def
      using b r d sub eq t
      by (intro exI [of _ xs] exI [of _ ys]) (auto simp: finished_set_def)
  next
    case Recv
    with st obtain res rest where rs: "results s = res # rest"
      and t: "t = s\<lparr>results := rest, buf := buf s @ res\<rparr>"
      by (auto simp: step_def split: if_splits list.splits)
    from rs r obtain y ys' where ys: "ys = y # ys'" "res = B ! y" "rest = map ((!) B) ys'"
      by (cases ys) auto
    show ?thesis
      unfolding data_inv_def
      using b d sub eq ys
      by (intro exI [of _ "xs @ [y]"] exI [of _ ys']) (auto simp: t finished_set_def)
  next
    case Return
    with st have t: "t = s\<lparr>returned := Some (buf s, None)\<rparr>"
      by (auto simp: step_def split: if_splits)
    show ?thesis
      unfolding data_inv_def
      using b r d sub eq
      by (intro exI [of _ xs] exI [of _ ys]) (simp add: t finished_set_def)
  next
    case Cancel
    with st have t: "t = s\<lparr>ctx_done := True\<rparr>"
      by (auto simp: step_def split: if_splits)
    show ?thesis
      unfolding data_inv_def
      using b r d sub
      by (intro exI [of _ xs] exI [of _ ys]) (simp add: t finished_set_def)
  qed
qed

lemma run_inv:
  "run render f shards es s = Some t \<Longrightarrow> pm_inv render f shards s \<Longrightarrow> pm_inv render f shards t"
proof (induction es arbitrary: s)
  case Nil
  then show ?case by simp
next
  case (Cons e es)
  from Cons.prems(1) obtain s' where s': "step render f shards e s = Some s'"
    and r: "run render f shards es s' = Some t"
    by (auto split: option.splits)
  have "pm_inv render f shards s'"
    using Cons.prems(2) s' unfolding pm_inv_def
    by (blast intro: step_ctl step_buf step_data)
  with r show ?case by (rule Cons.IH)
qed

lemma reachable_inv:
  "run render f shards es (printMetrics_start ctx shards) = Some t \<Longrightarrow> pm_inv render f shards t"
  by (erule run_inv) (simp add: pm_inv_def start_ctl start_buf start_data)

lemma weight_update:
  "i < length ws \<Longrightarrow> worker_weight w < worker_weight (ws ! i) \<Longrightarrow>
   sum_list (map worker_weight (ws[i := w])) + worker_weight (ws ! i)
     = sum_list (map worker_weight ws) + worker_weight w"
proof (induction ws arbitrary: i)
  case Nil
  then show ?case by simp
next
  case (Cons a ws)
  then show ?case by (cases i) auto
qed

lemma step_remaining:
  assumes "step render f shards e s = Some t"
  shows "remaining t < remaining s"
proof (cases e)
  case (Render i)
  with assms have i: "i < length (workers s)" "workers s ! i = Queued"
    and t: "t = s\<lparr>workers := (workers s)[i := Selecting (Fprintln render (applyMapper f (shards ! i)))]\<rparr>"
    by (auto simp: step_def split: if_splits)
  from weight_update [OF i(1), of "Selecting (Fprintln render (applyMapper f (shards ! i)))"] i(2)
  show ?thesis by (simp add: t remaining_def)
next
  case (Send i)
  with assms obtain bb where i: "i < length (workers s)" "workers s ! i = Selecting bb"
    and t: "t = s\<lparr>panicked := True\<rparr> \<and> \<not> panicked s \<or>
            t = s\<lparr>results := results s @ [bb], workers := (workers s)[i := Finished]\<rparr>"
    by (auto simp: step_def split: if_splits worker.splits)
  from weight_update [OF i(1), of Finished] i(2) t
  show ?thesis by (auto simp: remaining_def)
next
  case (Drop i)
  with assms obtain bb where i: "i < length (workers s)" "workers s ! i = Selecting bb"
    and t: "t = s\<lparr>workers := (workers s)[i := Finished]\<rparr>"
    by (auto simp: step_def split: if_splits worker.splits)
  from weight_update [OF i(1), of Finished] i(2) t
  show ?thesis by (auto simp: remaining_def)
qed (use assms in \<open>auto simp: step_def remaining_def split: if_splits list.splits\<close>)

lemma run_remaining:
  "run render f shards es s = Some t \<Longrightarrow> length es + remaining t \<le> remaining s"
proof (induction es arbitrary: s)
  case Nil
  then show ?case by simp
next
  case (Cons e es)
  from Cons.prems obtain s' where s': "step render f shards e s = Some s'"
    and r: "run render f shards es s' = Some t"
    by (auto split: option.splits)
  from Cons.IH [OF r] step_remaining [OF s'] show ?case by simp
qed

lemma remaining_start: "remaining (printMetrics_start ctx shards) \<le> 3 * length shards + 5"
proof -
  have "sum_list (map worker_weight (map (\<lambda>m. Queued) shards)) = 3 * length shards"
    by (induction shards) simp_all
  then show ?thesis by (simp add: remaining_def printMetrics_start_def)
qed

lemma run_bounded:
  "run render f shards es (printMetrics_start ctx shards) = Some t \<Longrightarrow> length es \<le> 3 * length shards + 5"
  using run_remaining [of render f shards es "printMetrics_start ctx shards" t] remaining_start [of ctx shards]
  by simp

lemma progress:
  assumes inv: "pm_inv render f shards s" and nr: "returned s = None"
  shows "can_proceed render f shards s"
proof -
  from inv have len: "length (workers s) = length shards" and np: "\<not> panicked s"
    and sup: "supervisor s \<noteq> SupWaiting \<Longrightarrow> \<forall>i<length shards. workers s ! i = Finished"
    and cl: "closed s \<longleftrightarrow> supervisor s = SupExited"
    by (auto simp: pm_inv_def ctl_inv_def)
  have ex: "e \<in> set (program_events s) \<Longrightarrow> step render f shards e s \<noteq> None \<Longrightarrow> ?thesis" for e
    unfolding can_proceed_def list_ex_iff by blast
  show ?thesis
  proof (cases "\<forall>i<length shards. workers s ! i = Finished")
    case True
    then have all: "list_all (\<lambda>w. w = Finished) (workers s)"
      using len by (simp add: list_all_length)
    show ?thesis
    proof (cases "supervisor s")
      case SupWaiting
      with all np show ?thesis
        by (intro ex [of WaitDone]) (simp_all add: program_events_def step_def)
    next
      case SupClosing
      with np show ?thesis
        by (intro ex [of Close]) (simp_all add: program_events_def step_def)
    next
      case SupExited
      with cl have "closed s" by simp
      with np nr show ?thesis
        by (cases "results s")
          (auto intro: ex [of Return] ex [of Recv] simp: program_events_def step_def)
    qed
  next
    case False
    then obtain i where i: "i < length shards" "workers s ! i \<noteq> Finished"
      by blast
    with sup cl have nc: "\<not> closed s"
      by auto
    show ?thesis
    proof (cases "workers s ! i")
      case Queued
      with i len np show ?thesis
        by (intro ex [of "Render i"]) (simp_all add: program_events_def step_def)
    next
      case (Selecting b)
      show ?thesis
      proof (cases "results s")
        case Nil
        with Selecting i len np nc show ?thesis
          by (intro ex [of "Send i"]) (simp_all add: program_events_def step_def results_cap_def)
      next
        case (Cons res rest)
        with np nr show ?thesis
          by (intro ex [of Recv]) (simp_all add: program_events_def step_def)
      qed
    next
      case Finished
      with i show ?thesis by simp
    qed
  qed
qed

lemma run_no_cancel:
  "run render f shards es s = Some t \<Longrightarrow> Cancel \<notin> set es \<Longrightarrow> ctx_done t = ctx_done s"
proof (induction es arbitrary: s)
  case Nil
  then show ?case by simp
next
  case (Cons e es)
  from Cons.prems obtain s' where s': "step render f shards e s = Some s'"
    and r: "run render f shards es s' = Some t"
    by (auto split: option.splits)
  from Cons.prems(2) have "e \<noteq> Cancel" "Cancel \<notin> set es" by auto
  have "ctx_done s' = ctx_done s"
    using s' \<open>e \<noteq> Cancel\<close>
    by (cases e) (auto simp: step_def split: if_splits worker.splits list.splits)
  with Cons.IH [OF r \<open>Cancel \<notin> set es\<close>] show ?case by simp
qed

lemma returned_sub:
  assumes inv: "pm_inv render f shards s" and ret: "returned s = Some (out, err)"
  shows "err = None \<and> (\<exists>xs. distinct xs \<and> set xs \<subseteq> {..<length shards} \<and>
           (\<not> ctx_done s \<longrightarrow> set xs = {..<length shards}) \<and>
           out = concat (map ((!) (snapshots render f shards)) xs))"
proof -
  from inv ret have len: "length (workers s) = length shards"
    and o: "out = buf s" "err = None" "results s = []" "closed s"
    and fin: "\<forall>i<length shards. workers s ! i = Finished"
    by (auto simp: pm_inv_def ctl_inv_def)
  from inv obtain xs ys where
    b: "buf s = concat (map ((!) (snapshots render f shards)) xs)"
    and r: "results s = map ((!) (snapshots render f shards)) ys" and
    d: "distinct (xs @ ys)" and sub: "set (xs @ ys) \<subseteq> finished_set s" and
    eq: "\<not> ctx_done s \<Longrightarrow> set (xs @ ys) = finished_set s"
    unfolding pm_inv_def data_inv_def by blast
  from r o have ys: "ys = []" by simp
  have fs: "finished_set s = {..<length shards}"
    using fin len by (auto simp: finished_set_def)
  show ?thesis
    using o b d sub eq ys fs by (intro conjI exI [of _ xs]) auto
qed

lemma distinct_subset_mset:
  assumes "distinct xs" "set xs \<subseteq> set ys"
  shows "mset xs \<subseteq># mset ys"
proof (rule mset_subset_eqI)
  fix a
  show "count (mset xs) a \<le> count (mset ys) a"
  proof (cases "a \<in> set xs")
    case True
    with assms have "count (mset xs) a = 1" "a \<in> set ys"
      by (auto simp: distinct_count_atmost_1)
    then show ?thesis
      by (simp add: Suc_le_eq)
  next
    case False
    then have "count (mset xs) a = 0"
      by (simp add: count_mset_0_iff)
    then show ?thesis by (simp only: le0)
  qed
qed

lemma distinct_indices_mset:
  assumes "distinct xs" "set xs \<subseteq> {..<length B}"
  shows "mset (map ((!) B) xs) \<subseteq># mset B"
proof -
  have "mset xs \<subseteq># mset [0..<length B]"
    using assms by (intro distinct_subset_mset) (auto simp: subset_iff)
  then have "image_mset ((!) B) (mset xs) \<subseteq># image_mset ((!) B) (mset [0..<length B])"
    by (rule image_mset_subseteq_mono)
  then have "mset (map ((!) B) xs) \<subseteq># mset (map ((!) B) [0..<length B])"
    by (simp only: mset_map)
  then show ?thesis
    by (simp only: map_nth)
qed

lemma all_indices_mset:
  assumes "distinct xs" "set xs = {..<length B}"
  shows "mset (map ((!) B) xs) = mset B"
proof -
  have "set xs = set [0..<length B]"
    using assms by (simp add: atLeast_upt)
  with assms have "mset xs = mset [0..<length B]"
    by (simp only: set_eq_iff_mset_eq_distinct [symmetric] distinct_upt)
  then have "mset (map ((!) B) xs) = mset (map ((!) B) [0..<length B])"
    by (simp only: mset_map)
  then show ?thesis
    by (simp only: map_nth)
qed

lemma run_append:
  "run render f shards (es @ es') s =
     (case run render f shards es s of None \<Rightarrow> None | Some t \<Rightarrow> run render f shards es' t)"
  by (induction es arbitrary: s) (auto split: option.splits)

lemma program_events_no_cancel: "Cancel \<notin> set (program_events s)"
  by (auto simp: program_events_def)

lemma completion:
  "pm_inv render f shards s \<Longrightarrow>
   \<exists>es' s'. Cancel \<notin> set es' \<and> run render f shards es' s = Some s' \<and> returned s' \<noteq> None"
proof (induction "remaining s" arbitrary: s rule: less_induct)
  case less
  show ?case
  proof (cases "returned s")
    case (Some r)
    then have "Cancel \<notin> set [] \<and> run render f shards [] s = Some s \<and> returned s \<noteq> None"
      by simp
    then show ?thesis by blast
  next
    case None
    with less.prems have "can_proceed render f shards s"
      by (rule progress)
    then obtain e t where e: "e \<in> set (program_events s)" and t: "step render f shards e s = Some t"
      by (auto simp: can_proceed_def list_ex_iff)
    from e have ne: "e \<noteq> Cancel"
      using program_events_no_cancel [of s] by auto
    have "pm_inv render f shards t"
      using less.prems t unfolding pm_inv_def
      by (blast intro: step_ctl step_buf step_data)
    moreover have "remaining t < remaining s"
      using t by (rule step_remaining)
    ultimately obtain es' s' where c: "Cancel \<notin> set es'" "run render f shards es' t = Some s'"
      "returned s' \<noteq> None"
      using less.hyps by blast
    with ne t have "Cancel \<notin> set (e # es') \<and> run render f shards (e # es') s = Some s' \<and> returned s' \<noteq> None"
      by simp
    then show ?thesis by blast
  qed
qed

lemma close_count:
  "run render f shards es s = Some t \<Longrightarrow> ctl_inv n s \<Longrightarrow>
   count_list es Close + (if supervisor t = SupExited then 0 else 1)
     \<le> (if supervisor s = SupExited then 0 else 1)"
proof (induction es arbitrary: s)
  case Nil
  then show ?case by simp
next
  case (Cons e es)
  from Cons.prems obtain s' where s': "step render f shards e s = Some s'"
    and r: "run render f shards es s' = Some t"
    by (auto split: option.splits)
  have inv': "ctl_inv n s'"
    using s' Cons.prems(2) by (rule step_ctl)
  have "(if e = Close then 1 else 0) + (if supervisor s' = SupExited then 0 else (1::nat))
          \<le> (if supervisor s = SupExited then 0 else 1)"
    using s' Cons.prems(2)
    by (cases e) (auto simp: step_def ctl_inv_def split: if_splits worker.splits list.splits)
  with Cons.IH [OF r inv'] show ?case by (simp split: if_splits)
qed

lemma closed_by_close:
  "run render f shards es s = Some t \<Longrightarrow> count_list es Close = 0 \<Longrightarrow> closed t = closed s"
proof (induction es arbitrary: s)
  case Nil
  then show ?case by simp
next
  case (Cons e es)
  from Cons.prems obtain s' where s': "step render f shards e s = Some s'"
    and r: "run render f shards es s' = Some t"
    by (auto split: option.splits)
  from Cons.prems(2) have ne: "e \<noteq> Close" and c: "count_list es Close = 0"
    by (auto split: if_splits)
  have "closed s' = closed s"
    using s' ne
    by (cases e) (auto simp: step_def split: if_splits worker.splits list.splits)
  with Cons.IH [OF r c] show ?case by simp
qed

lemma only_close_closes:
  assumes "step render f shards e s = Some t" "closed t \<noteq> closed s"
  shows "e = Close \<and> \<not> closed s \<and> supervisor s = SupClosing"
  using assms
  by (cases e) (auto simp: step_def split: if_splits worker.splits list.splits)

text \<open>
  Claim C2. Take any number of shards and any schedule of \<^verbatim>\<open>printMetrics\<close> that starts with
  a context that is not done and in which the context is never cancelled. The schedule is
  finite (at most \<open>3 * N + 5\<close> events), it can always be continued, without a cancellation,
  to one in which the caller returns, and whenever the caller has returned, the error is nil
  and the text is the concatenation of a permutation of the shards' serialized snapshots:
  every snapshot exactly once, each in one piece, in the order of arrival. The statement
  holds for \<open>N = 0\<close> as well, where the text is empty.
\<close>

theorem printMetrics_all_snapshots:
  assumes "run render f shards es (printMetrics_start False shards) = Some s"
    and "Cancel \<notin> set es"
  shows "length es \<le> 3 * length shards + 5 \<and>
    (\<exists>es' s'. Cancel \<notin> set es' \<and>
       run render f shards (es @ es') (printMetrics_start False shards) = Some s' \<and>
       returned s' \<noteq> None) \<and>
    (\<forall>out err. returned s = Some (out, err) \<longrightarrow>
       err = None \<and> (\<exists>p. mset p = mset (snapshots render f shards) \<and> out = concat p))"
proof (intro conjI allI impI)
  show "length es \<le> 3 * length shards + 5"
    using assms(1) by (rule run_bounded)
next
  have "pm_inv render f shards s"
    using assms(1) by (rule reachable_inv)
  then obtain es' s' where "Cancel \<notin> set es'" "run render f shards es' s = Some s'"
    "returned s' \<noteq> None"
    using completion by blast
  with assms(1) show "\<exists>es' s'. Cancel \<notin> set es' \<and>
       run render f shards (es @ es') (printMetrics_start False shards) = Some s' \<and>
       returned s' \<noteq> None"
    by (auto simp: run_append)
next
  fix out err
  assume ret: "returned s = Some (out, err)"
  have inv: "pm_inv render f shards s"
    using assms(1) by (rule reachable_inv)
  have nd: "\<not> ctx_done s"
    using run_no_cancel [OF assms] by (simp add: printMetrics_start_def)
  from returned_sub [OF inv ret] nd obtain xs where
    xs: "distinct xs" "set xs = {..<length shards}"
      "out = concat (map ((!) (snapshots render f shards)) xs)"
    and e: "err = None"
    by auto
  from e show "err = None" .
  have "mset (map ((!) (snapshots render f shards)) xs) = mset (snapshots render f shards)"
    using xs by (intro all_indices_mset) (simp_all add: snapshots_def)
  with xs(3) show "\<exists>p. mset p = mset (snapshots render f shards) \<and> out = concat p"
    by blast
qed

text \<open>
  Witness for C2: the two example shards; worker 1 sends before worker 0, and the supervisor
  closes the channel between the caller's two receives.
\<close>

theorem printMetrics_all_snapshots_witness:
  "run example_render getCounters example_shards
      [Render 0, Render 1, Send 1, Send 0, WaitDone, Recv, Close, Recv, Return]
      (printMetrics_start False example_shards) =
     Some \<lparr>workers = [Finished, Finished], results = [], closed = True, supervisor = SupExited,
           buf = ''b=3'' @ [CHR 0x0A] @ ''a=5'' @ [CHR 0x0A],
           returned = Some (''b=3'' @ [CHR 0x0A] @ ''a=5'' @ [CHR 0x0A], None),
           ctx_done = False, panicked = False\<rparr> \<and>
   Cancel \<notin> set [Render 0, Render 1, Send 1, Send 0, WaitDone, Recv, Close, Recv, Return] \<and>
   printMetrics example_render
      [Render 0, Render 1, Send 1, Send 0, WaitDone, Recv, Close, Recv, Return]
      False getCounters example_shards =
     Some (''b=3'' @ [CHR 0x0A] @ ''a=5'' @ [CHR 0x0A], None) \<and>
   (\<exists>p. mset p = mset (snapshots example_render getCounters example_shards) \<and>
        ''b=3'' @ [CHR 0x0A] @ ''a=5'' @ [CHR 0x0A] = concat p)"
proof -
  let ?es = "[Render 0, Render 1, Send 1, Send 0, WaitDone, Recv, Close, Recv, Return]"
  let ?s = "\<lparr>workers = [Finished, Finished], results = [], closed = True, supervisor = SupExited,
           buf = ''b=3'' @ [CHR 0x0A] @ ''a=5'' @ [CHR 0x0A],
           returned = Some (''b=3'' @ [CHR 0x0A] @ ''a=5'' @ [CHR 0x0A], None),
           ctx_done = False, panicked = False\<rparr>"
  have r: "run example_render getCounters example_shards ?es
             (printMetrics_start False example_shards) = Some ?s"
    by code_simp
  have c: "Cancel \<notin> set ?es"
    by simp
  from printMetrics_all_snapshots [OF r c]
  have "\<exists>p. mset p = mset (snapshots example_render getCounters example_shards) \<and>
          ''b=3'' @ [CHR 0x0A] @ ''a=5'' @ [CHR 0x0A] = concat p"
    by simp
  with r c show ?thesis
    by (simp add: printMetrics_def)
qed

text \<open>
  Claim C3. Take any shards, any selector, any state of the context at the call and any
  schedule of \<^verbatim>\<open>printMetrics\<close>, cancellations included. No goroutine has panicked; the
  schedule is finite and can always be continued to one in which the caller returns; whenever
  the caller has returned, the error is nil and the text is the concatenation of the
  snapshots of some of the shards, each at most once (all, some or none of them); and a
  worker that takes the \<^verbatim>\<open>ctx.Done()\<close> case does so with the context done, leaves the work
  function and changes neither the channel nor the caller's buffer.
\<close>

theorem printMetrics_never_fails:
  assumes "run render f shards es (printMetrics_start ctx shards) = Some s"
  shows "\<not> panicked s \<and> length es \<le> 3 * length shards + 5 \<and>
    (\<exists>es' s'. run render f shards (es @ es') (printMetrics_start ctx shards) = Some s' \<and>
       returned s' \<noteq> None) \<and>
    (\<forall>out err. returned s = Some (out, err) \<longrightarrow>
       err = None \<and> (\<exists>p. mset p \<subseteq># mset (snapshots render f shards) \<and> out = concat p)) \<and>
    (\<forall>i t. step render f shards (Drop i) s = Some t \<longrightarrow>
       ctx_done s \<and> results t = results s \<and> buf t = buf s \<and> workers t = (workers s)[i := Finished])"
proof (intro conjI allI impI)
  have inv: "pm_inv render f shards s"
    using assms by (rule reachable_inv)
  then show "\<not> panicked s"
    by (simp add: pm_inv_def ctl_inv_def)
  show "length es \<le> 3 * length shards + 5"
    using assms by (rule run_bounded)
  from inv obtain es' s' where "run render f shards es' s = Some s'" "returned s' \<noteq> None"
    using completion by blast
  with assms show "\<exists>es' s'. run render f shards (es @ es') (printMetrics_start ctx shards) = Some s' \<and>
       returned s' \<noteq> None"
    by (auto simp: run_append)
  {
    fix out err
    assume ret: "returned s = Some (out, err)"
    from returned_sub [OF inv ret] obtain xs where
      xs: "distinct xs" "set xs \<subseteq> {..<length shards}"
        "out = concat (map ((!) (snapshots render f shards)) xs)"
      and e: "err = None"
      by auto
    from e show "err = None" .
    have "mset (map ((!) (snapshots render f shards)) xs) \<subseteq># mset (snapshots render f shards)"
      using xs by (intro distinct_indices_mset) (simp_all add: snapshots_def)
    with xs(3) show "\<exists>p. mset p \<subseteq># mset (snapshots render f shards) \<and> out = concat p"
      by blast
  }
  {
    fix i t
    assume d: "step render f shards (Drop i) s = Some t"
    then show "ctx_done s" "results t = results s" "buf t = buf s"
      "workers t = (workers s)[i := Finished]"
      by (auto simp: step_def split: if_splits worker.splits)
  }
qed

text \<open>
  Witness for C3: the context is done at the call, both workers lose the race and drop their
  buffers, and the caller returns the empty text and a nil error.
\<close>

theorem printMetrics_never_fails_witness:
  "run example_render getCounters example_shards
      [Render 0, Render 1, Drop 1, Drop 0, WaitDone, Close, Return]
      (printMetrics_start True example_shards) =
     Some \<lparr>workers = [Finished, Finished], results = [], closed = True, supervisor = SupExited,
           buf = [], returned = Some ([], None), ctx_done = True, panicked = False\<rparr> \<and>
   printMetrics example_render [Render 0, Render 1, Drop 1, Drop 0, WaitDone, Close, Return]
      True getCounters example_shards = Some ([], None) \<and>
   length [Render 0, Render 1, Drop 1, Drop 0, WaitDone, Close, Return]
     \<le> 3 * length example_shards + 5 \<and>
   (\<exists>p. mset p \<subseteq># mset (snapshots example_render getCounters example_shards) \<and> [] = concat p)"
proof -
  let ?es = "[Render 0, Render 1, Drop 1, Drop 0, WaitDone, Close, Return]"
  let ?s = "\<lparr>workers = [Finished, Finished], results = [], closed = True, supervisor = SupExited,
           buf = [], returned = Some ([], None), ctx_done = True, panicked = False\<rparr>"
  have r: "run example_render getCounters example_shards ?es
             (printMetrics_start True example_shards) = Some ?s"
    by code_simp
  from printMetrics_never_fails [OF r]
  have "length ?es \<le> 3 * length example_shards + 5 \<and>
        (\<exists>p. mset p \<subseteq># mset (snapshots example_render getCounters example_shards) \<and>
             [] = concat p)"
    by simp
  with r show ?thesis
    by (simp add: printMetrics_def)
qed

text \<open>
  Claim C8. In every state that \<^verbatim>\<open>printMetrics\<close> can reach: nothing has panicked; the
  channel has been closed at most once, and exactly once if it is closed; if it is closed,
  every worker has left the work function (it has enqueued its buffer or abandoned it); the
  only event that changes whether the channel is closed is the supervisor's \<^verbatim>\<open>close\<close>, and
  it is enabled only when every worker has left the work function; and a worker's send finds
  the channel open and does not panic.
\<close>

theorem results_closed_once_after_workers:
  assumes "run render f shards es (printMetrics_start ctx shards) = Some s"
  shows "\<not> panicked s \<and> count_list es Close \<le> 1 \<and>
    (closed s \<longrightarrow> count_list es Close = 1 \<and> list_all (\<lambda>w. w = Finished) (workers s)) \<and>
    (\<forall>e t. step render f shards e s = Some t \<longrightarrow> closed t \<noteq> closed s \<longrightarrow>
       e = Close \<and> \<not> closed s \<and> list_all (\<lambda>w. w = Finished) (workers s)) \<and>
    (\<forall>i t. step render f shards (Send i) s = Some t \<longrightarrow> \<not> closed s \<and> \<not> panicked t)"
proof -
  have inv: "ctl_inv (length shards) s"
    using reachable_inv [OF assms] by (simp add: pm_inv_def)
  have fin: "supervisor s \<noteq> SupWaiting \<Longrightarrow> list_all (\<lambda>w. w = Finished) (workers s)"
    using inv by (simp add: ctl_inv_def list_all_length)
  have le: "count_list es Close \<le> 1"
    using close_count [OF assms start_ctl] by (simp add: printMetrics_start_def split: if_splits)
  have one: "count_list es Close = 1" if "closed s"
  proof (rule ccontr)
    assume "count_list es Close \<noteq> 1"
    with le have "count_list es Close = 0" by simp
    with closed_by_close [OF assms] that show False
      by (simp add: printMetrics_start_def)
  qed
  have a: "\<not> panicked s"
    using inv by (simp add: ctl_inv_def)
  have c: "closed s \<longrightarrow> count_list es Close = 1 \<and> list_all (\<lambda>w. w = Finished) (workers s)"
    using one fin inv by (auto simp: ctl_inv_def)
  have d: "\<forall>e t. step render f shards e s = Some t \<longrightarrow> closed t \<noteq> closed s \<longrightarrow>
       e = Close \<and> \<not> closed s \<and> list_all (\<lambda>w. w = Finished) (workers s)"
    using only_close_closes [of render f shards _ s] fin by fastforce
  have e: "\<forall>i t. step render f shards (Send i) s = Some t \<longrightarrow> \<not> closed s \<and> \<not> panicked t"
  proof (intro allI impI)
    fix i t
    assume st: "step render f shards (Send i) s = Some t"
    then obtain b where "i < length (workers s)" "workers s ! i = Selecting b"
      by (auto simp: step_def split: if_splits worker.splits)
    with inv have "\<not> closed s"
      by (auto simp: ctl_inv_def)
    moreover have "\<not> panicked t"
      using step_ctl [OF st inv] by (simp add: ctl_inv_def)
    ultimately show "\<not> closed s \<and> \<not> panicked t" ..
  qed
  from a le c d e show ?thesis by blast
qed

text \<open>
  Witness for C8: both workers have sent and the supervisor has closed the channel, which
  still holds the two buffers.
\<close>

theorem results_closed_once_after_workers_witness:
  "run example_render getCounters example_shards
      [Render 0, Render 1, Send 1, Send 0, WaitDone, Close]
      (printMetrics_start False example_shards) =
     Some \<lparr>workers = [Finished, Finished],
           results = [''b=3'' @ [CHR 0x0A], ''a=5'' @ [CHR 0x0A]],
           closed = True, supervisor = SupExited, buf = [], returned = None,
           ctx_done = False, panicked = False\<rparr> \<and>
   count_list [Render 0, Render 1, Send 1, Send 0, WaitDone, Close] Close = 1 \<and>
   list_all (\<lambda>w. w = Finished) [Finished, Finished]"
proof -
  let ?es = "[Render 0, Render 1, Send 1, Send 0, WaitDone, Close]"
  let ?s = "\<lparr>workers = [Finished, Finished],
           results = [''b=3'' @ [CHR 0x0A], ''a=5'' @ [CHR 0x0A]],
           closed = True, supervisor = SupExited, buf = [], returned = None,
           ctx_done = False, panicked = False\<rparr>"
  have r: "run example_render getCounters example_shards ?es
             (printMetrics_start False example_shards) = Some ?s"
    by code_simp
  from results_closed_once_after_workers [OF r]
  have "count_list ?es Close = 1 \<and> list_all (\<lambda>w. w = Finished) [Finished, Finished]"
    by simp
  with r show ?thesis
    by simp
qed

subsection \<open>Properties of the command table\<close>

text \<open>
  Claim C7. Each of the four delete commands is registered, returns a nil error, and its
  response is \<open>deleted N <kind>\<close> followed by a newline, where \<open><kind>\<close> is the kind of the
  command and \<open>N\<close> is the decimal form of what \<^verbatim>\<open>delete\<close> returns for the command's
  arguments and the selector of that kind.
\<close>

theorem delete_commands_reply:
  "map_option (\<lambda>fn. map_option fst (fn args st)) (commands ext ''delcounters'') =
     Some (Some (spec_deleted_reply (unat (snd (delete args getCounters (Dispatcher (server st))))) ''counters'', None)) \<and>
   map_option (\<lambda>fn. map_option fst (fn args st)) (commands ext ''deltimers'') =
     Some (Some (spec_deleted_reply (unat (snd (delete args getTimers (Dispatcher (server st))))) ''timers'', None)) \<and>
   map_option (\<lambda>fn. map_option fst (fn args st)) (commands ext ''delgauges'') =
     Some (Some (spec_deleted_reply (unat (snd (delete args getGauges (Dispatcher (server st))))) ''gauges'', None)) \<and>
   map_option (\<lambda>fn. map_option fst (fn args st)) (commands ext ''delsets'') =
     Some (Some (spec_deleted_reply (unat (snd (delete args getSets (Dispatcher (server st))))) ''sets'', None))"
  by (simp add: commands_def cmd_delete_def spec_deleted_reply_def split: prod.splits)

lemma dom_commands: "dom (commands ext) =
     {''help'', ''stats'', ''counters'', ''timers'', ''gauges'', ''sets'',
      ''delcounters'', ''deltimers'', ''delgauges'', ''delsets'', ''quit''}"
  by (auto simp: commands_def)

text \<open>
  Claim C9. The response of \<^verbatim>\<open>help\<close> is the line
  \<open>Commands: stats, counters, timers, gauges, delcounters, deltimers, delgauges, quit\<close>.
  The text \<open>sets\<close> does not occur in it, so it names neither \<^verbatim>\<open>sets\<close> nor \<^verbatim>\<open>delsets\<close>,
  although both are entries of the same command table; the registered commands whose names
  do not occur in the help text are \<^verbatim>\<open>help\<close>, \<^verbatim>\<open>sets\<close> and \<^verbatim>\<open>delsets\<close>.
\<close>

theorem help_omits_sets:
  "map_option (\<lambda>fn. map_option fst (fn args st)) (commands ext ''help'') =
     Some (Some (''Commands: stats, counters, timers, gauges, delcounters, deltimers, delgauges, quit'' @ [CHR 0x0A], None)) \<and>
   \<not> sublist ''sets'' help_text \<and>
   commands ext ''sets'' = Some (cmd_printMetrics ext getSets) \<and>
   commands ext ''delsets'' = Some (cmd_delete getSets ''sets'') \<and>
   {name \<in> dom (commands ext). \<not> sublist name help_text} = {''help'', ''sets'', ''delsets''}"
proof -
  have listed: "sublist ''stats'' help_text" "sublist ''counters'' help_text"
    "sublist ''timers'' help_text" "sublist ''gauges'' help_text"
    "sublist ''delcounters'' help_text" "sublist ''deltimers'' help_text"
    "sublist ''delgauges'' help_text" "sublist ''quit'' help_text"
    by code_simp+
  have omitted: "\<not> sublist ''help'' help_text" "\<not> sublist ''sets'' help_text"
    "\<not> sublist ''delsets'' help_text"
    by code_simp+
  have "{name \<in> dom (commands ext). \<not> sublist name help_text} = {''help'', ''sets'', ''delsets''}"
    unfolding dom_commands using listed omitted by auto
  moreover have "map_option (\<lambda>fn. map_option fst (fn args st)) (commands ext ''help'') =
     Some (Some (''Commands: stats, counters, timers, gauges, delcounters, deltimers, delgauges, quit'' @ [CHR 0x0A], None))"
    by (simp add: commands_def cmd_help_def help_text_def)
  moreover have "commands ext ''sets'' = Some (cmd_printMetrics ext getSets)"
    "commands ext ''delsets'' = Some (cmd_delete getSets ''sets'')"
    by (simp_all add: commands_def)
  ultimately show ?thesis
    using omitted(2) by blast
qed

subsection \<open>Properties of the session\<close>

lemma Loop_quit:
  assumes "tokens [] line = ''quit'' # args"
  shows "Loop unknown (commands ext) (line # rest) read_end st out =
     Some (Some errClientQuit, out @ [''goodbye'' @ [CHR 0x0A]], st)"
  using assms by (simp add: commands_def cmd_quit_def)

lemma Loop_after_quit:
  assumes "tokens [] line = ''quit'' # args"
  shows "Loop unknown (commands ext) (pre @ line # rest) read_end st out =
         Loop unknown (commands ext) (pre @ [line]) read_end' st out"
proof (induction pre arbitrary: st out)
  case Nil
  show ?case
    by (simp only: append_Nil Loop_quit [OF assms])
next
  case (Cons l pre)
  show ?case
    by (simp add: Cons.IH split: list.splits option.splits prod.splits)
qed

text \<open>
  Claim C4. \<^verbatim>\<open>quit\<close> is registered and returns the farewell \<open>goodbye\<close> together with
  \<^verbatim>\<open>errClientQuit\<close>. When the console loop reads a line whose first token is \<open>quit\<close>, in
  any state and after any output, it writes the farewell and returns \<^verbatim>\<open>errClientQuit\<close>;
  \<^verbatim>\<open>serveConnection\<close> then logs nothing and closes the connection, the shared state is
  unchanged, and the lines after the quit line have no effect wherever the quit line stands
  in the input.
\<close>

theorem quit_ends_session:
  assumes "tokens [] line = ''quit'' # args"
  shows "commands ext ''quit'' = Some cmd_quit \<and>
    cmd_quit args st = Some ((''goodbye'' @ [CHR 0x0A], Some errClientQuit), st) \<and>
    Loop unknown (commands ext) (line # rest) read_end st out =
      Some (Some errClientQuit, out @ [''goodbye'' @ [CHR 0x0A]], st) \<and>
    serveConnection ext (cmd_Loop ext (line # rest) read_end) conn (commands ext) sys =
      Some (sys\<lparr>sent := (sent sys)(conn := sent sys conn @ [''goodbye'' @ [CHR 0x0A]]),
               open_conns := open_conns sys - {conn}\<rparr>) \<and>
    serveConnection ext (cmd_Loop ext (pre @ line # rest) read_end) conn (commands ext) sys =
      serveConnection ext (cmd_Loop ext (pre @ [line]) read_end') conn (commands ext) sys"
proof -
  have a: "commands ext ''quit'' = Some cmd_quit"
    by (simp add: commands_def)
  have b: "cmd_quit args st = Some ((''goodbye'' @ [CHR 0x0A], Some errClientQuit), st)"
    by (simp add: cmd_quit_def)
  note c = Loop_quit [OF assms]
  have d: "serveConnection ext (cmd_Loop ext (line # rest) read_end) conn (commands ext) sys =
      Some (sys\<lparr>sent := (sent sys)(conn := sent sys conn @ [''goodbye'' @ [CHR 0x0A]]),
               open_conns := open_conns sys - {conn}\<rparr>)"
    unfolding serveConnection_def cmd_Loop_def Loop_quit [OF assms] by simp
  have e: "serveConnection ext (cmd_Loop ext (pre @ line # rest) read_end) conn (commands ext) sys =
      serveConnection ext (cmd_Loop ext (pre @ [line]) read_end') conn (commands ext) sys"
    unfolding serveConnection_def cmd_Loop_def
    by (simp only: Loop_after_quit [OF assms, of _ ext pre rest read_end _ _ read_end'])
  from a b c d e show ?thesis by blast
qed

text \<open>
  Witness for C4: the line \<open> quit now\<close> is followed by a delete command, which is not
  executed.
\<close>

theorem quit_ends_session_witness:
  "tokens [] '' quit now'' = [''quit'', ''now''] \<and>
   Loop (unknown_reply example_externals) (commands example_externals)
      ['' quit now'', ''delcounters a''] None (session example_system) []
     = Some (Some errClientQuit, [''goodbye'' @ [CHR 0x0A]], session example_system) \<and>
   map_option (\<lambda>sys'. (sent sys' 1, logged sys', open_conns sys',
        map Counters (Dispatcher (server (session sys'))) = map Counters example_shards))
     (serveConnection example_externals
        (cmd_Loop example_externals ['' quit now'', ''delcounters a''] None) 1
        (commands example_externals) example_system)
     = Some ([''goodbye'' @ [CHR 0x0A]], [], {2}, True)"
proof -
  have t: "tokens [] '' quit now'' = [''quit'', ''now'']"
    by (simp add: is_space_def)
  from quit_ends_session [OF t, of example_externals "session example_system"
      "unknown_reply example_externals" "[''delcounters a'']" None "[]" 1 example_system]
  show ?thesis
    using t by (simp add: example_system_def)
qed

text \<open>
  Claim C5. Whatever the console loop is and whatever error it returns, \<^verbatim>\<open>serveConnection\<close>
  returns, closes its own connection and no other, and appends one entry to the log exactly
  when the error is not nil and is none of \<^verbatim>\<open>context.Canceled\<close>,
  \<^verbatim>\<open>context.DeadlineExceeded\<close> and \<^verbatim>\<open>errClientQuit\<close>.
\<close>

theorem serveConnection_logs_other_errors:
  assumes "loop cmds ''console> '' (session sys) = Some (err, written, st')"
  shows "\<exists>sys'. serveConnection ext loop conn cmds sys = Some sys' \<and>
     session sys' = st' \<and>
     open_conns sys' = open_conns sys - {conn} \<and>
     sent sys' = (sent sys)(conn := sent sys conn @ written) \<and>
     logged sys' =
       (if err = None \<or> err = Some context_Canceled \<or> err = Some context_DeadlineExceeded \<or>
           err = Some errClientQuit
        then logged sys
        else logged sys @ [''Problem with console connection: '' @ fmt_error ext err])"
  using assms by (simp add: serveConnection_def)

text \<open>
  Witness for C5: the client sends \<open>help\<close> and the next read fails with \<open>EOF\<close>, which is
  logged; connection 1 is closed and connection 2 stays open.
\<close>

theorem serveConnection_logs_other_errors_witness:
  "cmd_Loop example_externals [''help''] (Some (OtherError ''EOF'')) (commands example_externals)
      ''console> '' (session example_system)
     = Some (Some (OtherError ''EOF''), [help_text], session example_system) \<and>
   (\<exists>sys'. serveConnection example_externals
        (cmd_Loop example_externals [''help''] (Some (OtherError ''EOF''))) 1
        (commands example_externals) example_system = Some sys' \<and>
      open_conns sys' = {2} \<and> sent sys' 1 = [help_text] \<and>
      logged sys' = [''Problem with console connection: EOF''])"
proof -
  have l: "cmd_Loop example_externals [''help''] (Some (OtherError ''EOF''))
      (commands example_externals) ''console> '' (session example_system)
     = Some (Some (OtherError ''EOF''), [help_text], session example_system)"
    by (simp add: cmd_Loop_def commands_def cmd_help_def is_space_def)
  have f: "fmt_error example_externals (Some (OtherError ''EOF'')) = ''EOF''"
    by (simp add: example_externals_def)
  have s: "open_conns example_system = {1, 2}" "sent example_system 1 = []"
    "logged example_system = []"
    by (simp_all add: example_system_def)
  from serveConnection_logs_other_errors [where ext = example_externals and conn = 1
      and loop = "cmd_Loop example_externals [''help''] (Some (OtherError ''EOF''))"
      and cmds = "commands example_externals" and sys = example_system, OF l]
  obtain sys' where "serveConnection example_externals
        (cmd_Loop example_externals [''help''] (Some (OtherError ''EOF''))) 1
        (commands example_externals) example_system = Some sys'"
    "open_conns sys' = open_conns example_system - {1}"
    "sent sys' = (sent example_system)(1 := sent example_system 1 @ [help_text])"
    "logged sys' = logged example_system @
       [''Problem with console connection: '' @ fmt_error example_externals (Some (OtherError ''EOF''))]"
    by auto
  with f s have "serveConnection example_externals
        (cmd_Loop example_externals [''help''] (Some (OtherError ''EOF''))) 1
        (commands example_externals) example_system = Some sys' \<and>
      open_conns sys' = {2} \<and> sent sys' 1 = [help_text] \<and>
      logged sys' = [''Problem with console connection: EOF'']"
    by auto
  with l show ?thesis by blast
qed

subsection \<open>Properties of the listener\<close>

text \<open>
  Claim C6. \<^verbatim>\<open>ListenAndServe\<close> listens on \<^verbatim>\<open>Addr\<close>, and on \<open>:8126\<close> when \<^verbatim>\<open>Addr\<close> is
  empty; when listening fails, it returns that error, no connection is served and there is
  no listener to close.
\<close>

theorem ListenAndServe_listens_on_Addr:
  "listen_addr (ListenAndServe s ctx net_Listen evs) = (if Addr s = [] then '':8126'' else Addr s) \<and>
   (\<forall>err. net_Listen (if Addr s = [] then '':8126'' else Addr s) = Some err \<longrightarrow>
      ListenAndServe s ctx net_Listen evs =
        \<lparr>listen_addr = (if Addr s = [] then '':8126'' else Addr s), result = Some err,
         sessions = [], listener_closed = False\<rparr>)"
  by (simp add: ListenAndServe_def DefaultConsoleAddr_def Let_def split: option.splits prod.splits)

text \<open>
  Witness for C6: with an empty \<^verbatim>\<open>Addr\<close> and port 8126 in use the error is returned; with
  another address the server accepts the connection.
\<close>

theorem ListenAndServe_listens_on_Addr_witness:
  "listen_addr (ListenAndServe (server (session example_system)) False
      (\<lambda>addr. if addr = '':8126'' then Some (OtherError ''address already in use'') else None)
      [Accepted 1]) = '':8126'' \<and>
   ListenAndServe (server (session example_system)) False
      (\<lambda>addr. if addr = '':8126'' then Some (OtherError ''address already in use'') else None)
      [Accepted 1] =
     \<lparr>listen_addr = '':8126'', result = Some (OtherError ''address already in use''),
      sessions = [], listener_closed = False\<rparr> \<and>
   ListenAndServe ((server (session example_system))\<lparr>Addr := ''localhost:9000''\<rparr>) False
      (\<lambda>addr. if addr = '':8126'' then Some (OtherError ''address already in use'') else None)
      [Accepted 1] =
     \<lparr>listen_addr = ''localhost:9000'', result = None, sessions = [1], listener_closed = False\<rparr>"
  using ListenAndServe_listens_on_Addr [of "server (session example_system)" False
      "\<lambda>addr. if addr = '':8126'' then Some (OtherError ''address already in use'') else None"
      "[Accepted 1]"]
  by (simp add: example_system_def ListenAndServe_def)

lemma Serve_filter:
  "fst (Serve ctx evs started) = fst (Serve ctx' (filter (\<lambda>ev. ev \<noteq> CtxCancelled) evs) started) \<and>
   fst (snd (Serve ctx evs started)) =
     fst (snd (Serve ctx' (filter (\<lambda>ev. ev \<noteq> CtxCancelled) evs) started))"
  by (induction ctx evs started rule: Serve.induct) simp_all

lemma Serve_returns:
  "fst (Serve ctx evs started) = Some err \<longleftrightarrow>
     (\<exists>pre post. evs = pre @ AcceptFailed err # post \<and> (\<forall>e. AcceptFailed e \<notin> set pre))"
proof (induction ctx evs started rule: Serve.induct)
  case (1 ctx started)
  show ?case by simp
next
  case (2 ctx c evs started)
  show ?case
  proof
    assume "fst (Serve ctx (Accepted c # evs) started) = Some err"
    with 2 obtain pre post where "evs = pre @ AcceptFailed err # post" "\<forall>e. AcceptFailed e \<notin> set pre"
      by auto
    then have "Accepted c # evs = (Accepted c # pre) @ AcceptFailed err # post \<and>
               (\<forall>e. AcceptFailed e \<notin> set (Accepted c # pre))"
      by simp
    then show "\<exists>pre post. Accepted c # evs = pre @ AcceptFailed err # post \<and>
                 (\<forall>e. AcceptFailed e \<notin> set pre)"
      by blast
  next
    assume "\<exists>pre post. Accepted c # evs = pre @ AcceptFailed err # post \<and>
              (\<forall>e. AcceptFailed e \<notin> set pre)"
    then obtain pre post where p: "Accepted c # evs = pre @ AcceptFailed err # post"
      "\<forall>e. AcceptFailed e \<notin> set pre"
      by blast
    then obtain pre' where "pre = Accepted c # pre'"
      by (cases pre) auto
    with p have "evs = pre' @ AcceptFailed err # post" "\<forall>e. AcceptFailed e \<notin> set pre'"
      by auto
    with 2 show "fst (Serve ctx (Accepted c # evs) started) = Some err"
      by auto
  qed
next
  case (3 ctx e evs started)
  show ?case
  proof
    assume "fst (Serve ctx (AcceptFailed e # evs) started) = Some err"
    then have "AcceptFailed e # evs = [] @ AcceptFailed err # evs \<and>
               (\<forall>e. AcceptFailed e \<notin> set [])"
      by simp
    then show "\<exists>pre post. AcceptFailed e # evs = pre @ AcceptFailed err # post \<and>
                 (\<forall>e. AcceptFailed e \<notin> set pre)"
      by blast
  next
    assume "\<exists>pre post. AcceptFailed e # evs = pre @ AcceptFailed err # post \<and>
              (\<forall>e. AcceptFailed e \<notin> set pre)"
    then obtain pre post where p: "AcceptFailed e # evs = pre @ AcceptFailed err # post"
      "\<forall>e. AcceptFailed e \<notin> set pre"
      by blast
    then have "pre = []"
      by (cases pre) auto
    with p show "fst (Serve ctx (AcceptFailed e # evs) started) = Some err"
      by simp
  qed
next
  case (4 ctx evs started)
  show ?case
  proof
    assume "fst (Serve ctx (CtxCancelled # evs) started) = Some err"
    with 4 obtain pre post where "evs = pre @ AcceptFailed err # post" "\<forall>e. AcceptFailed e \<notin> set pre"
      by auto
    then have "CtxCancelled # evs = (CtxCancelled # pre) @ AcceptFailed err # post \<and>
               (\<forall>e. AcceptFailed e \<notin> set (CtxCancelled # pre))"
      by simp
    then show "\<exists>pre post. CtxCancelled # evs = pre @ AcceptFailed err # post \<and>
                 (\<forall>e. AcceptFailed e \<notin> set pre)"
      by blast
  next
    assume "\<exists>pre post. CtxCancelled # evs = pre @ AcceptFailed err # post \<and>
              (\<forall>e. AcceptFailed e \<notin> set pre)"
    then obtain pre post where p: "CtxCancelled # evs = pre @ AcceptFailed err # post"
      "\<forall>e. AcceptFailed e \<notin> set pre"
      by blast
    then obtain pre' where "pre = CtxCancelled # pre'"
      by (cases pre) auto
    with p have "evs = pre' @ AcceptFailed err # post" "\<forall>e. AcceptFailed e \<notin> set pre'"
      by auto
    with 4 show "fst (Serve ctx (CtxCancelled # evs) started) = Some err"
      by auto
  qed
qed

text \<open>
  Claim C10. What \<^verbatim>\<open>Serve\<close> returns and the sessions it starts do not depend on the state
  of the context nor on its cancellations: they are the same when every cancellation is
  removed from the trace and the context starts in any state. \<^verbatim>\<open>Serve\<close> has returned exactly
  when a call of \<^verbatim>\<open>Accept\<close> has failed, and it returns the error of the first such call.
\<close>

theorem Serve_ignores_context:
  "fst (Serve ctx evs started) = fst (Serve ctx' (filter (\<lambda>ev. ev \<noteq> CtxCancelled) evs) started) \<and>
   fst (snd (Serve ctx evs started)) =
     fst (snd (Serve ctx' (filter (\<lambda>ev. ev \<noteq> CtxCancelled) evs) started)) \<and>
   ((\<exists>err. fst (Serve ctx evs started) = Some err) \<longleftrightarrow> (\<exists>err. AcceptFailed err \<in> set evs)) \<and>
   (\<forall>err. fst (Serve ctx evs started) = Some err \<longleftrightarrow>
      (\<exists>pre post. evs = pre @ AcceptFailed err # post \<and> (\<forall>e. AcceptFailed e \<notin> set pre)))"
proof -
  have iff: "(\<exists>err. fst (Serve ctx evs started) = Some err) \<longleftrightarrow> (\<exists>err. AcceptFailed err \<in> set evs)"
    by (induction ctx evs started rule: Serve.induct) auto
  with Serve_filter [of ctx evs started ctx'] Serve_returns [of ctx evs started]
  show ?thesis by blast
qed

text \<open>
  Witness for C10: the context is cancelled after the first connection; the second
  connection is still accepted, and \<^verbatim>\<open>Serve\<close> returns at the failed \<^verbatim>\<open>Accept\<close>.
\<close>

theorem Serve_ignores_context_witness:
  "Serve False [Accepted 1, CtxCancelled, Accepted 2, AcceptFailed (OtherError ''closed''), Accepted 3] []
     = (Some (OtherError ''closed''), [1, 2], True) \<and>
   Serve False [Accepted 1, CtxCancelled, Accepted 2] [] = (None, [1, 2], True) \<and>
   fst (Serve False [Accepted 1, Accepted 2, AcceptFailed (OtherError ''closed''), Accepted 3] [])
     = Some (OtherError ''closed'') \<and>
   (\<exists>pre post.
      [Accepted 1, CtxCancelled, Accepted 2, AcceptFailed (OtherError ''closed''), Accepted 3]
        = pre @ AcceptFailed (OtherError ''closed'') # post \<and>
      (\<forall>e. AcceptFailed e \<notin> set pre))"
proof -
  let ?evs = "[Accepted 1, CtxCancelled, Accepted 2, AcceptFailed (OtherError ''closed''), Accepted 3]"
  have r: "fst (Serve False ?evs []) = Some (OtherError ''closed'')"
    by simp
  from Serve_ignores_context [of False ?evs "[]" False]
  have "fst (Serve False ?evs []) = Some (OtherError ''closed'') \<longleftrightarrow>
      (\<exists>pre post. ?evs = pre @ AcceptFailed (OtherError ''closed'') # post \<and>
         (\<forall>e. AcceptFailed e \<notin> set pre))"
    by blast
  with r have "\<exists>pre post. ?evs = pre @ AcceptFailed (OtherError ''closed'') # post \<and>
         (\<forall>e. AcceptFailed e \<notin> set pre)"
    by blast
  then show ?thesis
    by simp
qed

end
